theory Spec2Isabelle
  imports Main "HOL-Library.Word"
begin

unbundle bit_operations_syntax

section \<open>The call trace storage of callTraceStorage.cpp\<close>

text \<open>
  The storage is a chain of open-addressed hash tables (\<open>LongHashTable\<close>) and an arena
  holding the stored call traces. The model is sequential: one call runs at a time, so the
  compare-and-swap on a key that was just read as 0 succeeds, and so does the one that
  installs a new table. Machine integers are words: \<open>u32\<close> and \<open>u64\<close> wrap around.
\<close>

type_synonym u32 = "32 word"
type_synonym u64 = "64 word"

text \<open>
  Modelled from the spec: \<open>ASGCT_CallFrame\<close> is declared in a header that is not among the
  sources. The spec treats a frame as an opaque record of raw bytes and uses 8-byte frames in
  its scenarios; a frame is its 8-byte memory image, so \<open>sizeof(ASGCT_CallFrame) = 8\<close>.
\<close>

type_synonym ASGCT_CallFrame = u64

definition sizeof_ASGCT_CallFrame :: int where
  "sizeof_ASGCT_CallFrame = 8"

text \<open>A \<open>CallTrace*\<close> is the index of the trace in the arena; \<open>None\<close> is the null pointer.\<close>

type_synonym CallTrace_ptr = "nat option"

record CallTrace =
  num_frames :: int
  frames :: "ASGCT_CallFrame list"

text \<open>
  A table: the header fields and the two parallel arrays. The \<open>_prev\<close> pointer is the rest of
  the chain (a chain is a list of tables, \<open>_current_table\<close> first, the table with
  \<open>_prev == NULL\<close> last). Only the slots below \<open>capacity\<close> belong to the table.
\<close>

record LongHashTable =
  capacity :: u32
  size_tab :: u32
  keys :: "u32 \<Rightarrow> u64"
  values_tab :: "u32 \<Rightarrow> CallTrace_ptr"

record CallTraceStorage =
  current_table :: "LongHashTable list"
  allocator :: "CallTrace list"

text \<open>
  Modelled from the spec: \<open>OS::safeAlloc\<close> and the arena's \<open>alloc\<close> are defined in files that
  are not among the sources. Each returns zero-filled memory or null; whether a call made by
  \<open>put\<close> fails is an input of the model.
\<close>

record alloc_env =
  safeAlloc_ok :: bool
  arena_ok :: bool

definition INITIAL_CAPACITY :: u32 where
  "INITIAL_CAPACITY = 65536"

subsection \<open>LongHashTable\<close>

definition allocate :: "u32 \<Rightarrow> LongHashTable" where
  "allocate cap = \<lparr>capacity = cap, size_tab = 0, keys = (\<lambda>_. 0), values_tab = (\<lambda>_. None)\<rparr>"

definition table_clear :: "LongHashTable \<Rightarrow> LongHashTable" where
  "table_clear t = t\<lparr>keys := (\<lambda>_. 0), values_tab := (\<lambda>_. None), size_tab := 0\<rparr>"

subsection \<open>Construction and clear\<close>

definition CallTraceStorage_new :: "alloc_env \<Rightarrow> CallTraceStorage" where
  "CallTraceStorage_new env =
     \<lparr>current_table = (if safeAlloc_ok env then [allocate INITIAL_CAPACITY] else []),
      allocator = []\<rparr>"

text \<open>The loop of \<open>clear\<close>: destroy the current table while it has a predecessor.\<close>

fun destroy_to_tail :: "LongHashTable list \<Rightarrow> LongHashTable list" where
  "destroy_to_tail (t # p # ps) = destroy_to_tail (p # ps)"
| "destroy_to_tail ts = ts"

text \<open>\<open>clear\<close> dereferences \<open>_current_table\<close>: on a null pointer there is no result.\<close>

definition clear :: "CallTraceStorage \<Rightarrow> CallTraceStorage option" where
  "clear st =
     (case destroy_to_tail (current_table st) of
        [] \<Rightarrow> None
      | t # ts \<Rightarrow> Some \<lparr>current_table = table_clear t # ts, allocator = []\<rparr>)"

subsection \<open>Identifiers and collect\<close>

text \<open>The expression \<open>capacity - (INITIAL_CAPACITY - 1) + slot\<close> of \<open>put\<close> and \<open>collect\<close>.\<close>

definition slot_id :: "u32 \<Rightarrow> u32 \<Rightarrow> u32" where
  "slot_id cap slot = cap - (INITIAL_CAPACITY - 1) + slot"

type_synonym trace_map = "u32 \<rightharpoonup> CallTrace_ptr"

definition collect_slot :: "LongHashTable \<Rightarrow> nat \<Rightarrow> trace_map \<Rightarrow> trace_map" where
  "collect_slot t slot m =
     (if keys t (of_nat slot) \<noteq> 0
      then m(slot_id (capacity t) (of_nat slot) \<mapsto> values_tab t (of_nat slot))
      else m)"

definition collect_table :: "LongHashTable \<Rightarrow> trace_map \<Rightarrow> trace_map" where
  "collect_table t m = fold (collect_slot t) [0..<unat (capacity t)] m"

definition collect :: "CallTraceStorage \<Rightarrow> trace_map \<Rightarrow> trace_map" where
  "collect st m = fold collect_table (current_table st) m"

subsection \<open>calcHash\<close>

definition M :: u64 where
  "M = 0xc6a4a7935bd1e995"

definition R :: nat where
  "R = 47"

fun calcHash_loop :: "u64 \<Rightarrow> u64 list \<Rightarrow> u64" where
  "calcHash_loop h [] = h"
| "calcHash_loop h (d # ds) =
     (let k = d * M;
          k = k XOR drop_bit R k;
          k = k * M;
          h = h XOR k;
          h = h * M
      in calcHash_loop h ds)"

text \<open>
  \<open>len\<close> is an \<open>int\<close>: the product is cut to 32 bits and read as signed. With a negative
  \<open>num_frames\<close> or \<open>len\<close>, or with a buffer of fewer than \<open>num_frames\<close> frames, the source
  walks outside the buffer; there the model has no result.
\<close>

definition calcHash :: "int \<Rightarrow> ASGCT_CallFrame list \<Rightarrow> u64 option" where
  "calcHash n fs =
     (let len = sint (word_of_int (n * sizeof_ASGCT_CallFrame) :: u32);
          cnt = nat (len div 8)
      in if n < 0 \<or> len < 0 \<or> int (length fs) < n then None
         else
           let h = word_of_int len * M;
               h = calcHash_loop h (take cnt fs)
           in if (word_of_int len :: u32) AND 4 \<noteq> 0 \<and> length fs \<le> cnt then None
              else
                let h = (if (word_of_int len :: u32) AND 4 \<noteq> 0
                         then (h XOR ucast (ucast (fs ! cnt) :: u32)) * M else h);
                    h = h XOR drop_bit R h;
                    h = h * M;
                    h = h XOR drop_bit R h
                in Some h)"

subsection \<open>storeCallTrace and findCallTrace\<close>

text \<open>The copy loop of \<open>storeCallTrace\<close>: \<open>buf->frames[i] = frames[i]\<close> for \<open>i < num_frames\<close>.\<close>

definition copy_frames :: "int \<Rightarrow> ASGCT_CallFrame list \<Rightarrow> ASGCT_CallFrame list" where
  "copy_frames n fs = map (\<lambda>i. fs ! i) [0..<nat n]"

definition storeCallTrace ::
  "CallTrace list \<Rightarrow> alloc_env \<Rightarrow> int \<Rightarrow> ASGCT_CallFrame list \<Rightarrow> CallTrace_ptr \<times> CallTrace list" where
  "storeCallTrace arena env n fs =
     (if arena_ok env
      then (Some (length arena), arena @ [\<lparr>num_frames = n, frames = copy_frames n fs\<rparr>])
      else (None, arena))"

definition first_slot :: "u64 \<Rightarrow> u32 \<Rightarrow> u32" where
  "first_slot hash cap = ucast (hash AND ucast (cap - 1))"

text \<open>The probe loop of \<open>findCallTrace\<close>; the result is the slot that holds the hash.\<close>

function find_probe :: "(u32 \<Rightarrow> u64) \<Rightarrow> u64 \<Rightarrow> u32 \<Rightarrow> u32 \<Rightarrow> u32 \<Rightarrow> u32 option" where
  "find_probe ks hash cap slot step =
     (if ks slot = hash then Some slot
      else if ks slot = 0 then None
      else if step + 1 \<ge> cap then None
      else find_probe ks hash cap ((slot + (step + 1)) AND (cap - 1)) (step + 1))"
  by pat_completeness auto
termination
proof (relation "measure (\<lambda>(ks, hash, cap, slot, step). unat (cap - 1 - step))")
  show "wf (measure (\<lambda>(ks, hash, cap, slot, step). unat (cap - 1 - step)))"
    by simp
next
  fix ks :: "u32 \<Rightarrow> u64" and hash :: u64 and cap slot step :: u32
  assume a: "\<not> cap \<le> step + 1"
  define x where "x = cap - 1 - step"
  have "x \<noteq> 0"
    using a by (auto simp: x_def)
  then have "unat (x - 1) < unat x"
    by (simp add: unat_minus_one unat_gt_0)
  moreover have "cap - 1 - (step + 1) = x - 1"
    by (simp add: x_def)
  ultimately show "((ks, hash, cap, (slot + (step + 1)) AND (cap - 1), step + 1),
      (ks, hash, cap, slot, step)) \<in> measure (\<lambda>(ks, hash, cap, slot, step). unat (cap - 1 - step))"
    by (simp add: x_def)
qed

definition findCallTrace :: "LongHashTable \<Rightarrow> u64 \<Rightarrow> CallTrace_ptr" where
  "findCallTrace t hash =
     (case find_probe (keys t) hash (capacity t) (first_slot hash (capacity t)) 0 of
        None \<Rightarrow> None
      | Some slot \<Rightarrow> values_tab t slot)"

subsection \<open>put\<close>

text \<open>
  How the probe loop of \<open>put\<close> ends: at a slot that holds the hash already (the loop condition
  fails), at an empty slot that it claims, or with a table overflow.
\<close>

datatype probe = Hit u32 | Claimed u32 | Overflow

function put_probe :: "(u32 \<Rightarrow> u64) \<Rightarrow> u64 \<Rightarrow> u32 \<Rightarrow> u32 \<Rightarrow> u32 \<Rightarrow> probe" where
  "put_probe ks hash cap slot step =
     (if ks slot = hash then Hit slot
      else if ks slot = 0 then Claimed slot
      else if step + 1 \<ge> cap then Overflow
      else put_probe ks hash cap ((slot + (step + 1)) AND (cap - 1)) (step + 1))"
  by pat_completeness auto
termination
proof (relation "measure (\<lambda>(ks, hash, cap, slot, step). unat (cap - 1 - step))")
  show "wf (measure (\<lambda>(ks, hash, cap, slot, step). unat (cap - 1 - step)))"
    by simp
next
  fix ks :: "u32 \<Rightarrow> u64" and hash :: u64 and cap slot step :: u32
  assume a: "\<not> cap \<le> step + 1"
  define x where "x = cap - 1 - step"
  have "x \<noteq> 0"
    using a by (auto simp: x_def)
  then have "unat (x - 1) < unat x"
    by (simp add: unat_minus_one unat_gt_0)
  moreover have "cap - 1 - (step + 1) = x - 1"
    by (simp add: x_def)
  ultimately show "((ks, hash, cap, (slot + (step + 1)) AND (cap - 1), step + 1),
      (ks, hash, cap, slot, step)) \<in> measure (\<lambda>(ks, hash, cap, slot, step). unat (cap - 1 - step))"
    by (simp add: x_def)
qed

text \<open>
  Lines 210 to 213 of \<open>put\<close>: the trace of the hash in the predecessor table when there is
  one, otherwise a freshly stored trace (null when the arena has no memory). The result is
  the pointer and the arena.
\<close>

definition migrate_or_store ::
  "CallTrace list \<Rightarrow> alloc_env \<Rightarrow> LongHashTable list \<Rightarrow> u64 \<Rightarrow> int \<Rightarrow> ASGCT_CallFrame list \<Rightarrow>
     CallTrace_ptr \<times> CallTrace list" where
  "migrate_or_store arena env rest hash n fs =
     (let trace = (case rest of [] \<Rightarrow> None | p # _ \<Rightarrow> findCallTrace p hash)
      in case trace of
           None \<Rightarrow> storeCallTrace arena env n fs
         | Some a \<Rightarrow> (Some a, arena))"

text \<open>
  What \<open>put\<close> does after it has claimed \<open>slot\<close> of the current table \<open>t\<close> (\<open>rest\<close> are its
  predecessors): the key is written, the size incremented, a table of twice the capacity is
  installed when the new size is \<open>capacity * 3 / 4\<close> and the allocation succeeds, and the
  trace is published in the slot of \<open>t\<close>.
\<close>

definition claim_slot ::
  "CallTraceStorage \<Rightarrow> alloc_env \<Rightarrow> LongHashTable \<Rightarrow> LongHashTable list \<Rightarrow> u64 \<Rightarrow> u32 \<Rightarrow>
     int \<Rightarrow> ASGCT_CallFrame list \<Rightarrow> CallTraceStorage" where
  "claim_slot st env t rest hash slot n fs =
     (let cap = capacity t;
          t1 = t\<lparr>keys := (keys t)(slot := hash), size_tab := size_tab t + 1\<rparr>;
          new_tables = (if size_tab t1 = cap * 3 div 4 \<and> safeAlloc_ok env
                        then [allocate (cap * 2)] else []);
          (trace, arena) = migrate_or_store (allocator st) env rest hash n fs;
          t2 = t1\<lparr>values_tab := (values_tab t1)(slot := trace)\<rparr>
      in \<lparr>current_table = new_tables @ t2 # rest, allocator = arena\<rparr>)"

text \<open>
  \<open>put\<close> returns the identifier and the new storage. There is no result where the source
  dereferences a null \<open>_current_table\<close>, indexes a table of capacity 0, or where \<open>calcHash\<close>
  has none.
\<close>

definition put ::
  "CallTraceStorage \<Rightarrow> alloc_env \<Rightarrow> int \<Rightarrow> ASGCT_CallFrame list \<Rightarrow> (u32 \<times> CallTraceStorage) option" where
  "put st env n fs =
     (case calcHash n fs of
        None \<Rightarrow> None
      | Some hash \<Rightarrow>
          (case current_table st of
             [] \<Rightarrow> None
           | t # rest \<Rightarrow>
               if capacity t = 0 then None
               else
                 (case put_probe (keys t) hash (capacity t) (first_slot hash (capacity t)) 0 of
                    Overflow \<Rightarrow> Some (0, st)
                  | Hit slot \<Rightarrow> Some (slot_id (capacity t) slot, st)
                  | Claimed slot \<Rightarrow>
                      Some (slot_id (capacity t) slot, claim_slot st env t rest hash slot n fs))))"

subsection \<open>The chain invariant and example storages\<close>

text \<open>
  The tail of the chain has capacity \<open>INITIAL_CAPACITY\<close> and every other table has twice the
  capacity of its predecessor (in \<open>u32\<close> arithmetic). A null \<open>_current_table\<close> is excluded.
\<close>

fun chain_ok :: "LongHashTable list \<Rightarrow> bool" where
  "chain_ok [] = False"
| "chain_ok [t] = (capacity t = INITIAL_CAPACITY)"
| "chain_ok (t # p # ps) = (capacity t = 2 * capacity p \<and> chain_ok (p # ps))"

subsection \<open>A trace for every hash\<close>

text \<open>
  The hash of a trace with one frame is a bijection of the frame: the multiplications by the
  odd constant \<open>M\<close> and the shifts can be undone. \<open>frame_for_hash h\<close> is the frame whose
  one-frame trace has the hash \<open>h\<close>; it is used to build example storages.
\<close>

definition M_inv :: u64 where
  "M_inv = 0x5f7a0ea7e59b19bd"

definition frame_for_hash :: "u64 \<Rightarrow> ASGCT_CallFrame" where
  "frame_for_hash h =
     (let h = h XOR drop_bit R h;
          h = h * M_inv;
          h = h XOR drop_bit R h;
          h = h * M_inv;
          k = h XOR (8 * M);
          k = k * M_inv;
          k = k XOR drop_bit R k;
          k = k * M_inv
      in k)"

text \<open>
  The storage after \<open>n\<close> one-frame traces with the hashes \<open>81920, 81921, ...\<close> have been put
  into a new storage: the slots from 16384 on are occupied, each by a key whose first probed
  slot it is.
\<close>

definition filled_table :: "nat \<Rightarrow> LongHashTable" where
  "filled_table n =
     \<lparr>capacity = 65536, size_tab = of_nat n,
      keys = (\<lambda>s. if 16384 \<le> unat s \<and> unat s < 16384 + n then ucast s + 65536 else 0),
      values_tab = (\<lambda>s. if 16384 \<le> unat s \<and> unat s < 16384 + n
                        then Some (unat s - 16384) else None)\<rparr>"

definition filled :: "nat \<Rightarrow> CallTraceStorage" where
  "filled n =
     \<lparr>current_table = [filled_table n],
      allocator = map (\<lambda>i. \<lparr>num_frames = 1, frames = [frame_for_hash (of_nat i + 81920)]\<rparr>) [0..<n]\<rparr>"

text \<open>A storage one insertion below the growth threshold of its only table.\<close>

definition threshold_table :: LongHashTable where
  "threshold_table = filled_table 49151"

definition threshold_example :: CallTraceStorage where
  "threshold_example = filled 49151"

definition env_ok :: alloc_env where
  "env_ok = \<lparr>safeAlloc_ok = True, arena_ok = True\<rparr>"

definition env_no_table :: alloc_env where
  "env_no_table = \<lparr>safeAlloc_ok = False, arena_ok = True\<rparr>"


text \<open>The trace with the single frame 1, and the storage after it is put at the threshold.\<close>

definition hash_1 :: u64 where
  "hash_1 = 10357027354812746030"

definition after_growth :: CallTraceStorage where
  "after_growth = claim_slot threshold_example env_ok threshold_table [] hash_1 2350 1 [1]"

subsection \<open>Runs of puts\<close>

text \<open>\<open>puts_to st st'\<close>: the storage \<open>st'\<close> is reached from \<open>st\<close> by a sequence of calls of \<open>put\<close>.\<close>

inductive puts_to :: "CallTraceStorage \<Rightarrow> CallTraceStorage \<Rightarrow> bool" where
  puts_refl: "puts_to st st"
| puts_step: "puts_to st st1 \<Longrightarrow> put st1 env n fs = Some (r, st2) \<Longrightarrow> puts_to st st2"

text \<open>A table after more keys have been claimed: no occupied slot has changed its key.\<close>

definition table_ext :: "LongHashTable \<Rightarrow> LongHashTable \<Rightarrow> bool" where
  "table_ext t t' \<longleftrightarrow> capacity t' = capacity t \<and> (\<forall>s. keys t s \<noteq> 0 \<longrightarrow> keys t' s = keys t s)"

text \<open>A new storage after the trace with the frame 1, and then the one with the frame 2, are put.\<close>

definition one_trace_example :: CallTraceStorage where
  "one_trace_example =
     \<lparr>current_table =
        [\<lparr>capacity = 65536, size_tab = 1, keys = (\<lambda>_. 0)(2350 := hash_1),
          values_tab = (\<lambda>_. None)(2350 := Some 0)\<rparr>],
      allocator = [\<lparr>num_frames = 1, frames = [1]\<rparr>]\<rparr>"

definition hash_2 :: u64 where
  "hash_2 = 14362838344389764114"

definition two_trace_example :: CallTraceStorage where
  "two_trace_example =
     \<lparr>current_table =
        [\<lparr>capacity = 65536, size_tab = 2, keys = (\<lambda>_. 0)(2350 := hash_1, 9234 := hash_2),
          values_tab = (\<lambda>_. None)(2350 := Some 0, 9234 := Some 1)\<rparr>],
      allocator = [\<lparr>num_frames = 1, frames = [1]\<rparr>, \<lparr>num_frames = 1, frames = [2]\<rparr>]\<rparr>"

subsection \<open>The probe sequence\<close>

text \<open>
  The slot that the loops of \<open>findCallTrace\<close> and \<open>put\<close> examine in their iteration \<open>k\<close>
  (where \<open>step = k\<close>), for the table capacity and the first slot.
\<close>

fun probe_slot :: "u32 \<Rightarrow> u32 \<Rightarrow> nat \<Rightarrow> u32" where
  "probe_slot cap slot0 0 = slot0"
| "probe_slot cap slot0 (Suc k) = (probe_slot cap slot0 k + of_nat (Suc k)) AND (cap - 1)"

text \<open>
  Iteration \<open>k\<close> of a probe loop is the first whose slot holds the hash or is empty (and the
  loop gets that far: \<open>k\<close> is below the capacity).
\<close>

definition first_probe :: "(u32 \<Rightarrow> u64) \<Rightarrow> u64 \<Rightarrow> u32 \<Rightarrow> u32 \<Rightarrow> nat \<Rightarrow> bool" where
  "first_probe ks hash cap slot0 k \<longleftrightarrow>
     k < unat cap \<and>
     (ks (probe_slot cap slot0 k) = hash \<or> ks (probe_slot cap slot0 k) = 0) \<and>
     (\<forall>j < k. ks (probe_slot cap slot0 j) \<noteq> hash \<and> ks (probe_slot cap slot0 j) \<noteq> 0)"

subsection \<open>What collect emits\<close>

text \<open>
  The slot of a table that has the identifier \<open>k\<close>, and whether \<open>collect\<close> emits an entry
  with key \<open>k\<close> for the table.
\<close>

definition slot_of :: "LongHashTable \<Rightarrow> u32 \<Rightarrow> u32" where
  "slot_of t k = k - (capacity t - (INITIAL_CAPACITY - 1))"

definition emits :: "LongHashTable \<Rightarrow> u32 \<Rightarrow> bool" where
  "emits t k \<longleftrightarrow> slot_of t k < capacity t \<and> keys t (slot_of t k) \<noteq> 0"

text \<open>A chain of two tables that hold the same hash, with different trace pointers.\<close>

definition shared_hash_example :: CallTraceStorage where
  "shared_hash_example =
     \<lparr>current_table =
        [\<lparr>capacity = 131072, size_tab = 1, keys = (\<lambda>_. 0)(77 := 77),
          values_tab = (\<lambda>_. None)(77 := Some 0)\<rparr>,
         \<lparr>capacity = 65536, size_tab = 1, keys = (\<lambda>_. 0)(77 := 77),
          values_tab = (\<lambda>_. None)\<rparr>],
      allocator = [\<lparr>num_frames = 1, frames = [9]\<rparr>]\<rparr>"


subsection \<open>Sequences of puts with their results\<close>

type_synonym put_args = "alloc_env \<times> int \<times> ASGCT_CallFrame list"

text \<open>The calls of \<open>put\<close> in order; the result is the list of the returned identifiers.\<close>

fun puts :: "CallTraceStorage \<Rightarrow> put_args list \<Rightarrow> (u32 list \<times> CallTraceStorage) option" where
  "puts st [] = Some ([], st)"
| "puts st ((env, n, fs) # ops) =
     (case put st env n fs of
        None \<Rightarrow> None
      | Some (r, st1) \<Rightarrow>
          (case puts st1 ops of
             None \<Rightarrow> None
           | Some (rs, st2) \<Rightarrow> Some (r # rs, st2)))"

definition hashes :: "put_args list \<Rightarrow> u64 option list" where
  "hashes ops = map (\<lambda>(env, n, fs). calcHash n fs) ops"

text \<open>The puts that lead from \<open>filled k\<close> to \<open>filled n\<close>, and the identifiers they return.\<close>

definition fill_ops :: "nat \<Rightarrow> nat \<Rightarrow> put_args list" where
  "fill_ops k n = map (\<lambda>i. (env_ok, 1, [frame_for_hash (of_nat i + 81920)])) [k..<n]"

definition fill_ids :: "nat \<Rightarrow> nat \<Rightarrow> u32 list" where
  "fill_ids k n = map (\<lambda>i. of_nat i + 16385) [k..<n]"

text \<open>The storage after the trace with the frame 1 has been put once more, after the growth.\<close>

definition put_twice_example :: CallTraceStorage where
  "put_twice_example =
     claim_slot after_growth env_ok (allocate 131072) (tl (current_table after_growth)) hash_1 2350 1 [1]"

text \<open>
  The storage after \<open>n\<close> one-frame traces with the hashes \<open>65536, 65537, ...\<close> have been put
  into a new storage that cannot grow: the slots from 0 on are occupied, each by a key whose
  first probed slot it is. With \<open>n = 65536\<close> the table is full.
\<close>

definition packed_table :: "nat \<Rightarrow> LongHashTable" where
  "packed_table n =
     \<lparr>capacity = 65536, size_tab = of_nat n,
      keys = (\<lambda>s. if unat s < n then ucast s + 65536 else 0),
      values_tab = (\<lambda>s. if unat s < n then Some (unat s) else None)\<rparr>"

definition packed :: "nat \<Rightarrow> CallTraceStorage" where
  "packed n =
     \<lparr>current_table = [packed_table n],
      allocator = map (\<lambda>i. \<lparr>num_frames = 1, frames = [frame_for_hash (of_nat i + 65536)]\<rparr>) [0..<n]\<rparr>"

definition pack_ops :: "nat \<Rightarrow> nat \<Rightarrow> put_args list" where
  "pack_ops k n = map (\<lambda>i. (env_no_table, 1, [frame_for_hash (of_nat i + 65536)])) [k..<n]"

definition pack_ids :: "nat \<Rightarrow> nat \<Rightarrow> u32 list" where
  "pack_ids k n = map (\<lambda>i. of_nat i + 1) [k..<n]"

section \<open>Properties\<close>

subsection \<open>clear\<close>

lemma destroy_to_tail_last: "ts \<noteq> [] \<Longrightarrow> destroy_to_tail ts = [last ts]"
  by (induction ts rule: destroy_to_tail.induct) auto

lemma chain_ok_last: "chain_ok ts \<Longrightarrow> capacity (last ts) = INITIAL_CAPACITY"
  by (induction ts rule: chain_ok.induct) auto

text \<open>
  Claim C9: after \<open>clear\<close> the chain has length 1; the remaining table is the tail, of capacity
  \<open>INITIAL_CAPACITY\<close>, its size is 0, all its keys and values are zero, and the arena is
  empty. (The chain is one built by the constructor and \<open>put\<close>: it satisfies \<open>chain_ok\<close>.)
\<close>

theorem clear_resets:
  assumes "chain_ok (current_table st)"
  shows "clear st = Some \<lparr>current_table =
      [\<lparr>capacity = INITIAL_CAPACITY, size_tab = 0, keys = (\<lambda>_. 0), values_tab = (\<lambda>_. None)\<rparr>],
      allocator = []\<rparr>"
proof -
  have ne: "current_table st \<noteq> []"
    using assms by auto
  have "capacity (last (current_table st)) = INITIAL_CAPACITY"
    using assms by (rule chain_ok_last)
  then have "table_clear (last (current_table st)) =
      \<lparr>capacity = INITIAL_CAPACITY, size_tab = 0, keys = (\<lambda>_. 0), values_tab = (\<lambda>_. None)\<rparr>"
    by (simp add: table_clear_def)
  then show ?thesis
    using ne by (simp add: clear_def destroy_to_tail_last)
qed

subsection \<open>Capacities and identifiers\<close>

declare put_probe.simps [simp del] find_probe.simps [simp del]

lemma chain_ok_capacity:
  "chain_ok ts \<Longrightarrow> i < length ts \<Longrightarrow> capacity (ts ! i) = 2 ^ (16 + (length ts - 1 - i))"
proof (induction ts arbitrary: i rule: chain_ok.induct)
  case 1
  then show ?case by simp
next
  case (2 t)
  then show ?case by (simp add: INITIAL_CAPACITY_def)
next
  case (3 t p ps)
  show ?case
  proof (cases i)
    case 0
    have "capacity p = 2 ^ (16 + (length (p # ps) - 1 - 0))"
      using "3.IH" [of 0] "3.prems" by simp
    moreover have "(2::u32) * 2 ^ (16 + length ps) = 2 ^ (17 + length ps)"
      by (simp add: power_add)
    ultimately show ?thesis using 0 "3.prems" by simp
  next
    case (Suc j)
    have "capacity ((p # ps) ! j) = 2 ^ (16 + (length (p # ps) - 1 - j))"
      using "3.IH" [of j] "3.prems" Suc by simp
    then show ?thesis using Suc by simp
  qed
qed

lemma unat_pow2_u32: "n < 32 \<Longrightarrow> unat ((2::u32) ^ n) = 2 ^ n"
proof -
  have "(0::u32) < 2 ^ n" if "n < 32"
    using that by (simp add: word_2p_lem word_size)
  then show "n < 32 \<Longrightarrow> unat ((2::u32) ^ n) = 2 ^ n"
    by (simp add: unat_eq_nat_uint uint_2p)
qed

lemma slot_id_unat:
  assumes "k \<le> 15" "unat s < 2 ^ (16 + k)"
  shows "unat (slot_id (2 ^ (16 + k)) s) = 2 ^ (16 + k) - 65535 + unat s"
proof -
  have c: "unat ((2::u32) ^ (16 + k)) = 2 ^ (16 + k)"
    using assms by (simp add: unat_pow2_u32)
  have ge: "(2::nat) ^ 16 \<le> 2 ^ (16 + k)"
    by (rule power_increasing) auto
  have le: "(2::nat) ^ (16 + k) \<le> 2 ^ 31"
    using assms by (intro power_increasing) auto
  have "(65535::u32) \<le> 2 ^ (16 + k)"
    using ge c by (simp add: word_le_nat_alt)
  then have a: "unat ((2::u32) ^ (16 + k) - 65535) = 2 ^ (16 + k) - 65535"
    using c by (simp add: unat_sub)
  have "unat ((2::u32) ^ (16 + k) - 65535) + unat s < 2 ^ 32"
    using a assms(2) le by simp
  then have "unat ((2::u32) ^ (16 + k) - 65535 + s) = unat ((2::u32) ^ (16 + k) - 65535) + unat s"
    by (simp add: unat_add_lem [THEN iffD1])
  then show ?thesis
    using a by (simp add: slot_id_def INITIAL_CAPACITY_def)
qed


lemma slot_id_inj:
  assumes "k1 \<le> 15" "k2 \<le> 15" "unat s1 < 2 ^ (16 + k1)" "unat s2 < 2 ^ (16 + k2)"
    and eq: "slot_id (2 ^ (16 + k1)) s1 = slot_id (2 ^ (16 + k2)) s2"
  shows "k1 = k2 \<and> s1 = s2"
proof -
  have e: "(2::nat) ^ (16 + k1) - 65535 + unat s1 = 2 ^ (16 + k2) - 65535 + unat s2"
    using slot_id_unat [OF assms(1,3)] slot_id_unat [OF assms(2,4)] eq by simp
  have big: "(65536::nat) \<le> 2 ^ (16 + k)" for k
    using power_increasing [of 16 "16 + k" "2::nat"] by simp
  have lt: "False" if "a < b" "unat x < 2 ^ (16 + a)"
    "(2::nat) ^ (16 + a) - 65535 + unat x = 2 ^ (16 + b) - 65535 + unat y" for a b and x y :: u32
  proof -
    have "(2::nat) ^ (17 + a) \<le> 2 ^ (16 + b)"
      using that(1) by (intro power_increasing) auto
    moreover have "(2::nat) ^ (17 + a) = 2 * 2 ^ (16 + a)"
      by (simp add: power_add)
    ultimately show False
      using that(2,3) big [of a] big [of b] by linarith
  qed
  have "k1 = k2"
    using lt [of k1 k2 s1 s2] lt [of k2 k1 s2 s1] assms(3,4) e by (cases k1 k2 rule: linorder_cases) auto
  then show ?thesis
    using e by (simp add: word_unat_eq_iff)
qed

lemma ucast_and_low: "(ucast ((h :: u64) AND ucast (m :: u32)) :: u32) = ucast h AND m"
  by (rule bit_word_eqI) (auto simp: bit_simps)

lemma first_slot_lt: "cap \<noteq> 0 \<Longrightarrow> first_slot hash cap < cap"
proof -
  assume "cap \<noteq> 0"
  then have "cap - 1 < cap"
    by (simp add: word_less_nat_alt unat_minus_one unat_gt_0)
  moreover have "first_slot hash cap \<le> cap - 1"
    by (simp add: first_slot_def ucast_and_low word_and_le1)
  ultimately show ?thesis by simp
qed

lemma and_dec_lt: "cap \<noteq> 0 \<Longrightarrow> (x AND (cap - 1)) < (cap :: u32)"
proof -
  assume "cap \<noteq> 0"
  then have "cap - 1 < cap"
    by (simp add: word_less_nat_alt unat_minus_one unat_gt_0)
  moreover have "x AND (cap - 1) \<le> cap - 1"
    by (simp add: word_and_le1)
  ultimately show ?thesis by simp
qed

lemma put_probe_slot_lt:
  "cap \<noteq> 0 \<Longrightarrow> slot < cap \<Longrightarrow> put_probe ks hash cap slot step = r \<Longrightarrow>
     (r = Hit s \<or> r = Claimed s) \<Longrightarrow> s < cap"
proof (induction ks hash cap slot step rule: put_probe.induct)
  case (1 ks hash cap slot step)
  show ?case
  proof (cases "ks slot = hash \<or> ks slot = 0 \<or> cap \<le> step + 1")
    case True
    then show ?thesis
      using "1.prems" by (subst (asm) put_probe.simps) (auto split: if_splits)
  next
    case False
    then have "put_probe ks hash cap ((slot + (step + 1)) AND (cap - 1)) (step + 1) = r"
      using "1.prems"(3) by (subst (asm) put_probe.simps) simp
    then show ?thesis
      using "1.IH" False "1.prems"(1,4) and_dec_lt by blast
  qed
qed

lemma chain_capacity_unat:
  assumes "chain_ok ts" "length ts \<le> 16" "i < length ts"
  shows "unat (capacity (ts ! i)) = 2 ^ (16 + (length ts - 1 - i))"
proof -
  have "16 + (length ts - 1 - i) < 32"
    using assms by linarith
  then show ?thesis
    using chain_ok_capacity [OF assms(1,3)] by (simp add: unat_pow2_u32)
qed

lemma chain_slot_id:
  assumes ok: "chain_ok ts" and len: "length ts \<le> 16"
    and i: "i < length ts" and j: "j < length ts"
    and s: "s < capacity (ts ! i)" and s': "s' < capacity (ts ! j)"
  shows "unat (capacity (ts ! i)) = 65536 * 2 ^ (length ts - 1 - i) \<and>
         unat (slot_id (capacity (ts ! i)) s) = unat (capacity (ts ! i)) - 65535 + unat s \<and>
         unat (capacity (ts ! i)) - 65535 \<le> unat (slot_id (capacity (ts ! i)) s) \<and>
         unat (slot_id (capacity (ts ! i)) s) \<le> 2 * unat (capacity (ts ! i)) - 65536 \<and>
         slot_id (capacity (ts ! i)) s \<noteq> 0 \<and>
         ((slot_id (capacity (ts ! i)) s = slot_id (capacity (ts ! j)) s') = (i = j \<and> s = s'))"
proof -
  define a where "a = length ts - 1 - i"
  define b where "b = length ts - 1 - j"
  have a15: "a \<le> 15" and b15: "b \<le> 15"
    using len i j by (auto simp: a_def b_def)
  have ca: "capacity (ts ! i) = 2 ^ (16 + a)" and cb: "capacity (ts ! j) = 2 ^ (16 + b)"
    using chain_ok_capacity [OF ok i] chain_ok_capacity [OF ok j] by (simp_all add: a_def b_def)
  have ua: "unat (capacity (ts ! i)) = 2 ^ (16 + a)" and ub: "unat (capacity (ts ! j)) = 2 ^ (16 + b)"
    using chain_capacity_unat [OF ok len i] chain_capacity_unat [OF ok len j]
    by (simp_all add: a_def b_def)
  have sa: "unat s < 2 ^ (16 + a)" and sb: "unat s' < 2 ^ (16 + b)"
    using s s' ua ub by (simp_all add: word_less_nat_alt)
  have big: "(65536::nat) \<le> 2 ^ (16 + a)"
    using power_increasing [of 16 "16 + a" "2::nat"] by simp
  have id: "unat (slot_id (capacity (ts ! i)) s) = 2 ^ (16 + a) - 65535 + unat s"
    using slot_id_unat [OF a15 sa] ca by simp
  have c1: "unat (capacity (ts ! i)) = 65536 * 2 ^ (length ts - 1 - i)"
    using ua by (simp add: a_def power_add)
  have c5: "slot_id (capacity (ts ! i)) s \<noteq> 0"
  proof
    assume "slot_id (capacity (ts ! i)) s = 0"
    then have "unat (slot_id (capacity (ts ! i)) s) = 0" by simp
    then show False using id big by simp
  qed
  have c6: "(slot_id (capacity (ts ! i)) s = slot_id (capacity (ts ! j)) s') = (i = j \<and> s = s')"
  proof
    assume "slot_id (capacity (ts ! i)) s = slot_id (capacity (ts ! j)) s'"
    then have "a = b \<and> s = s'"
      using slot_id_inj [OF a15 b15 sa sb] ca cb by simp
    then show "i = j \<and> s = s'"
      using i j by (auto simp: a_def b_def)
  next
    assume "i = j \<and> s = s'"
    then show "slot_id (capacity (ts ! i)) s = slot_id (capacity (ts ! j)) s'" by simp
  qed
  have id': "unat (slot_id (capacity (ts ! i)) s) = unat (capacity (ts ! i)) - 65535 + unat s"
    using id ua by simp
  have c3: "unat (capacity (ts ! i)) - 65535 \<le> unat (slot_id (capacity (ts ! i)) s)"
    using id' by linarith
  have c4: "unat (slot_id (capacity (ts ! i)) s) \<le> 2 * unat (capacity (ts ! i)) - 65536"
    using id' sa big ua by linarith
  show ?thesis
    using c1 id' c3 c4 c5 c6 by blast
qed


lemma put_some_cases:
  assumes "put st env n fs = Some (r, st')"
  obtains hash t rest where "calcHash n fs = Some hash" "current_table st = t # rest"
    "capacity t \<noteq> 0"
    "put_probe (keys t) hash (capacity t) (first_slot hash (capacity t)) 0 = Overflow \<and> r = 0 \<and> st' = st
     \<or> (\<exists>slot. put_probe (keys t) hash (capacity t) (first_slot hash (capacity t)) 0 = Hit slot
           \<and> slot < capacity t \<and> r = slot_id (capacity t) slot \<and> st' = st)
     \<or> (\<exists>slot. put_probe (keys t) hash (capacity t) (first_slot hash (capacity t)) 0 = Claimed slot
           \<and> slot < capacity t \<and> r = slot_id (capacity t) slot
           \<and> st' = claim_slot st env t rest hash slot n fs)"
proof -
  obtain hash where h: "calcHash n fs = Some hash"
    using assms by (auto simp: put_def split: option.splits)
  obtain t rest where c: "current_table st = t # rest"
    using assms h by (auto simp: put_def split: list.splits)
  have z: "capacity t \<noteq> 0"
    using assms h c by (auto simp: put_def split: if_splits)
  let ?p = "put_probe (keys t) hash (capacity t) (first_slot hash (capacity t)) 0"
  have lt: "slot < capacity t" if "?p = Hit slot \<or> ?p = Claimed slot" for slot
    using put_probe_slot_lt [OF z first_slot_lt [OF z] refl] that by blast
  have "?p = Overflow \<and> r = 0 \<and> st' = st
     \<or> (\<exists>slot. ?p = Hit slot \<and> slot < capacity t \<and> r = slot_id (capacity t) slot \<and> st' = st)
     \<or> (\<exists>slot. ?p = Claimed slot \<and> slot < capacity t \<and> r = slot_id (capacity t) slot
           \<and> st' = claim_slot st env t rest hash slot n fs)"
  proof (cases ?p)
    case (Hit slot)
    then show ?thesis using assms h c z lt [of slot] by (simp add: put_def)
  next
    case (Claimed slot)
    then show ?thesis using assms h c z lt [of slot] by (simp add: put_def)
  next
    case Overflow
    then show ?thesis using assms h c z by (simp add: put_def)
  qed
  then show ?thesis
    using that h c z by blast
qed

lemma head_slot_id_nonzero:
  assumes ok: "chain_ok (t # rest)" and len: "length (t # rest) \<le> 16" and s: "slot < capacity t"
  shows "slot_id (capacity t) slot \<noteq> 0"
proof -
  define a where "a = length rest"
  have a15: "a \<le> 15" using len by (simp add: a_def)
  have ca: "capacity t = 2 ^ (16 + a)"
    using chain_ok_capacity [OF ok, of 0] by (simp add: a_def)
  have ua: "unat (capacity t) = 2 ^ (16 + a)"
    using a15 ca by (simp add: unat_pow2_u32)
  have sa: "unat s < 2 ^ (16 + a)" if "s < capacity t" for s
    using that ua by (simp add: word_less_nat_alt)
  have big: "(65536::nat) \<le> 2 ^ (16 + a)"
    using power_increasing [of 16 "16 + a" "2::nat"] by simp
  have "unat (slot_id (capacity t) slot) = 2 ^ (16 + a) - 65535 + unat slot"
    using slot_id_unat [OF a15 sa [OF s]] ca by simp
  then have "unat (slot_id (capacity t) slot) \<noteq> 0"
    using big by linarith
  then show ?thesis by auto
qed

lemma slot_ids_facts:
  assumes ok: "chain_ok ts" and len: "length ts \<le> 16"
    and i: "i < length ts" and j: "j < length ts"
    and s: "s < capacity (ts ! i)" and s': "s' < capacity (ts ! j)"
  shows "unat (capacity (ts ! i)) = 65536 * 2 ^ (length ts - 1 - i) \<and>
         unat (slot_id (capacity (ts ! i)) s) = unat (capacity (ts ! i)) - 65535 + unat s \<and>
         unat (capacity (ts ! i)) - 65535 \<le> unat (slot_id (capacity (ts ! i)) s) \<and>
         unat (slot_id (capacity (ts ! i)) s) \<le> 2 * unat (capacity (ts ! i)) - 65536 \<and>
         slot_id (capacity (ts ! i)) s \<noteq> 0 \<and>
         ((slot_id (capacity (ts ! i)) s = slot_id (capacity (ts ! j)) s') = (i = j \<and> s = s')) \<and>
         (\<forall>a env n fs r st' hash.
            calcHash n fs = Some hash \<longrightarrow>
            put \<lparr>current_table = ts, allocator = a\<rparr> env n fs = Some (r, st') \<longrightarrow>
            (r \<noteq> 0) = (put_probe (keys (hd ts)) hash (capacity (hd ts))
                          (first_slot hash (capacity (hd ts))) 0 \<noteq> Overflow))"
proof -
  have "(r \<noteq> 0) = (put_probe (keys (hd ts)) hash (capacity (hd ts))
                          (first_slot hash (capacity (hd ts))) 0 \<noteq> Overflow)"
    if h: "calcHash n fs = Some hash"
      and p: "put \<lparr>current_table = ts, allocator = a\<rparr> env n fs = Some (r, st')"
    for a env n fs r st' hash
  proof -
    from p obtain hash' t rest where c: "calcHash n fs = Some hash'" "ts = t # rest"
      and d: "put_probe (keys t) hash' (capacity t) (first_slot hash' (capacity t)) 0 = Overflow
                \<and> r = 0 \<and> st' = \<lparr>current_table = ts, allocator = a\<rparr>
         \<or> (\<exists>slot. put_probe (keys t) hash' (capacity t) (first_slot hash' (capacity t)) 0 = Hit slot
               \<and> slot < capacity t \<and> r = slot_id (capacity t) slot
               \<and> st' = \<lparr>current_table = ts, allocator = a\<rparr>)
         \<or> (\<exists>slot. put_probe (keys t) hash' (capacity t) (first_slot hash' (capacity t)) 0
                 = Claimed slot
               \<and> slot < capacity t \<and> r = slot_id (capacity t) slot
               \<and> st' = claim_slot \<lparr>current_table = ts, allocator = a\<rparr> env t rest hash' slot n fs)"
      by (rule put_some_cases) auto
    have nz: "slot_id (capacity t) slot \<noteq> 0" if "slot < capacity t" for slot
      using head_slot_id_nonzero [of t rest slot] ok len c(2) that by simp
    have "hash' = hash" using h c(1) by simp
    then show ?thesis
      using d nz c(2) by auto
  qed
  then show ?thesis
    using chain_slot_id [OF assms] by blast
qed

subsection \<open>What a claiming put changes\<close>

lemma claim_slot_eq:
  "claim_slot st env t rest hash slot n fs =
     \<lparr>current_table =
        (if size_tab t + 1 = capacity t * 3 div 4 \<and> safeAlloc_ok env
         then [allocate (capacity t * 2)] else []) @
        t\<lparr>keys := (keys t)(slot := hash), size_tab := size_tab t + 1,
          values_tab := (values_tab t)(slot := fst (migrate_or_store (allocator st) env rest hash n fs))\<rparr>
        # rest,
      allocator = snd (migrate_or_store (allocator st) env rest hash n fs)\<rparr>"
  by (simp add: claim_slot_def Let_def split: prod.splits)

subsection \<open>Growth\<close>

lemma calcHash_1: "calcHash 1 [1] = Some 10357027354812746030"
  by (simp add: calcHash_def sizeof_ASGCT_CallFrame_def M_def R_def Let_def)

lemma first_slot_1: "first_slot 10357027354812746030 65536 = 2350"
  by (simp add: first_slot_def)

lemma first_slot_1b: "first_slot 10357027354812746030 131072 = 2350"
  by (simp add: first_slot_def)

lemma threshold_probe:
  "put_probe (keys threshold_table) 10357027354812746030 65536 2350 0 = Claimed 2350"
  by (subst put_probe.simps) (simp add: threshold_table_def filled_table_def)


lemma chain_ok_head: "capacity t' = capacity t \<Longrightarrow> chain_ok (t' # rest) = chain_ok (t # rest)"
  by (cases rest) simp_all

lemma chain_ok_claim:
  assumes "chain_ok (t # rest)"
  shows "chain_ok (current_table (claim_slot st env t rest hash slot n fs))"
proof -
  define t' where "t' = t\<lparr>keys := (keys t)(slot := hash), size_tab := size_tab t + 1,
          values_tab := (values_tab t)(slot := fst (migrate_or_store (allocator st) env rest hash n fs))\<rparr>"
  have cap: "capacity t' = capacity t"
    by (simp add: t'_def)
  have a: "chain_ok (t' # rest)"
    using assms chain_ok_head [OF cap] by simp
  then have b: "chain_ok (allocate (capacity t * 2) # t' # rest)"
    using cap by (simp add: allocate_def)
  have "current_table (claim_slot st env t rest hash slot n fs) = t' # rest
      \<or> current_table (claim_slot st env t rest hash slot n fs) = allocate (capacity t * 2) # t' # rest"
    unfolding t'_def claim_slot_eq by simp
  then show ?thesis
    using a b by auto
qed

lemma chain_ok_put:
  assumes "put st env n fs = Some (r, st')" "chain_ok (current_table st)"
  shows "chain_ok (current_table st')"
  using assms(1)
proof (rule put_some_cases)
  fix hash t rest
  assume "current_table st = t # rest"
    and "put_probe (keys t) hash (capacity t) (first_slot hash (capacity t)) 0 = Overflow \<and> r = 0 \<and> st' = st
     \<or> (\<exists>slot. put_probe (keys t) hash (capacity t) (first_slot hash (capacity t)) 0 = Hit slot
           \<and> slot < capacity t \<and> r = slot_id (capacity t) slot \<and> st' = st)
     \<or> (\<exists>slot. put_probe (keys t) hash (capacity t) (first_slot hash (capacity t)) 0 = Claimed slot
           \<and> slot < capacity t \<and> r = slot_id (capacity t) slot
           \<and> st' = claim_slot st env t rest hash slot n fs)"
  then show ?thesis
    using assms(2) chain_ok_claim [of t rest] by auto
qed


lemma threshold_put:
  "put threshold_example e 1 [1] =
     Some (2351, claim_slot threshold_example e threshold_table [] 10357027354812746030 2350 1 [1])"
proof -
  have "capacity threshold_table = 65536"
    by (simp add: threshold_table_def filled_table_def)
  then show ?thesis
    by (simp add: put_def calcHash_1 threshold_example_def filled_def threshold_table_def [symmetric] first_slot_1 threshold_probe slot_id_def
        INITIAL_CAPACITY_def)
qed




subsection \<open>The storage after a growth\<close>


lemma calcHash_Some_bounds: "calcHash n fs = Some hash \<Longrightarrow> 0 \<le> n \<and> nat n \<le> length fs"
  by (auto simp: calcHash_def Let_def split: if_splits)

lemma after_growth_put: "put threshold_example env_ok 1 [1] = Some (2351, after_growth)"
  by (simp add: threshold_put after_growth_def hash_1_def)

lemma after_growth_chain:
  "current_table after_growth =
     [allocate 131072,
      threshold_table\<lparr>keys := (keys threshold_table)(2350 := hash_1), size_tab := 49152,
        values_tab := (values_tab threshold_table)(2350 := Some 49151)\<rparr>]"
  by (simp add: after_growth_def claim_slot_eq migrate_or_store_def storeCallTrace_def
      threshold_example_def filled_def threshold_table_def [symmetric] threshold_table_def filled_table_def env_ok_def)

lemma after_growth_allocator:
  "allocator after_growth = allocator threshold_example @ [\<lparr>num_frames = 1, frames = [1]\<rparr>]"
  by (simp add: after_growth_def claim_slot_eq migrate_or_store_def storeCallTrace_def
      threshold_example_def filled_def threshold_table_def [symmetric] env_ok_def copy_frames_def)

lemma after_growth_find:
  "findCallTrace (threshold_table\<lparr>keys := (keys threshold_table)(2350 := hash_1), size_tab := 49152,
        values_tab := (values_tab threshold_table)(2350 := Some 49151)\<rparr>) hash_1 = Some 49151"
  by (simp add: findCallTrace_def threshold_table_def filled_table_def hash_1_def first_slot_1 find_probe.simps)

lemma after_growth_probe:
  "put_probe (keys (allocate 131072)) hash_1 131072 2350 0 = Claimed 2350"
  by (subst put_probe.simps) (simp add: allocate_def hash_1_def)

lemma after_growth_put2:
  "put after_growth e 1 [1] =
     Some (67887, claim_slot after_growth e (allocate 131072) (tl (current_table after_growth)) hash_1 2350 1 [1])"
proof -
  have "capacity (allocate 131072) = 131072"
    by (simp add: allocate_def)
  then show ?thesis
    using after_growth_probe
    by (simp add: put_def calcHash_1 after_growth_chain first_slot_1b slot_id_def
        INITIAL_CAPACITY_def hash_1_def)
qed

subsection \<open>Repeated puts of one trace\<close>

lemma put_probe_unfold_rec:
  "ks slot \<noteq> hash \<Longrightarrow> ks slot \<noteq> 0 \<Longrightarrow> \<not> cap \<le> step + 1 \<Longrightarrow>
     put_probe ks hash cap slot step =
       put_probe ks hash cap ((slot + (step + 1)) AND (cap - 1)) (step + 1)"
  by (subst put_probe.simps) simp

lemma put_probe_claimed_empty:
  "put_probe ks hash cap slot step = Claimed s \<Longrightarrow> ks s = 0 \<and> hash \<noteq> 0"
proof (induction ks hash cap slot step rule: put_probe.induct)
  case (1 ks hash cap slot step)
  show ?case
  proof (cases "ks slot = hash \<or> ks slot = 0 \<or> cap \<le> step + 1")
    case True
    then show ?thesis
      using "1.prems" by (subst (asm) put_probe.simps) (auto split: if_splits)
  next
    case False
    then show ?thesis
      using "1.IH" "1.prems" put_probe_unfold_rec [of ks slot hash cap step] by auto
  qed
qed

lemma put_probe_hit_key:
  "put_probe ks hash cap slot step = Hit s \<Longrightarrow> ks s = hash"
proof (induction ks hash cap slot step rule: put_probe.induct)
  case (1 ks hash cap slot step)
  show ?case
  proof (cases "ks slot = hash \<or> ks slot = 0 \<or> cap \<le> step + 1")
    case True
    then show ?thesis
      using "1.prems" by (subst (asm) put_probe.simps) (auto split: if_splits)
  next
    case False
    then show ?thesis
      using "1.IH" "1.prems" put_probe_unfold_rec [of ks slot hash cap step] by auto
  qed
qed

lemma put_probe_stable:
  assumes "put_probe ks hash cap slot step = Hit s \<or> put_probe ks hash cap slot step = Claimed s"
    and "hash \<noteq> 0" and "ks' s = hash" and "\<forall>x. ks x \<noteq> 0 \<longrightarrow> ks' x = ks x"
  shows "put_probe ks' hash cap slot step = Hit s"
  using assms
proof (induction ks hash cap slot step rule: put_probe.induct)
  case (1 ks hash cap slot step)
  show ?case
  proof (cases "ks slot = hash \<or> ks slot = 0")
    case True
    then have "s = slot"
      using "1.prems"(1) by (subst (asm) (1 2) put_probe.simps) (auto split: if_splits)
    then show ?thesis
      using "1.prems"(3) by (subst put_probe.simps) simp
  next
    case False
    then have k: "ks' slot = ks slot"
      using "1.prems"(4) by simp
    have nov: "\<not> cap \<le> step + 1"
      using "1.prems"(1) False by (subst (asm) (1 2) put_probe.simps) (auto split: if_splits)
    have rec: "put_probe ks hash cap ((slot + (step + 1)) AND (cap - 1)) (step + 1) = Hit s
        \<or> put_probe ks hash cap ((slot + (step + 1)) AND (cap - 1)) (step + 1) = Claimed s"
      using "1.prems"(1) False nov by (subst (asm) (1 2) put_probe.simps) simp
    have "put_probe ks' hash cap ((slot + (step + 1)) AND (cap - 1)) (step + 1) = Hit s"
      using "1.IH" False nov rec "1.prems"(2,3,4) by blast
    then show ?thesis
      using False k nov by (subst put_probe.simps) simp
  qed
qed


lemma table_ext_refl: "table_ext t t"
  by (simp add: table_ext_def)

lemma table_ext_trans: "table_ext a b \<Longrightarrow> table_ext b c \<Longrightarrow> table_ext a c"
  by (auto simp: table_ext_def)

lemma put_chain_shape:
  assumes "put st env n fs = Some (r, st')" "current_table st = t # rest"
  shows "\<exists>new t'. current_table st' = new @ t' # rest \<and> table_ext t t'"
  using assms(1)
proof (rule put_some_cases)
  fix hash t0 rest0
  assume c: "current_table st = t0 # rest0"
    and d: "put_probe (keys t0) hash (capacity t0) (first_slot hash (capacity t0)) 0 = Overflow \<and> r = 0 \<and> st' = st
     \<or> (\<exists>slot. put_probe (keys t0) hash (capacity t0) (first_slot hash (capacity t0)) 0 = Hit slot
           \<and> slot < capacity t0 \<and> r = slot_id (capacity t0) slot \<and> st' = st)
     \<or> (\<exists>slot. put_probe (keys t0) hash (capacity t0) (first_slot hash (capacity t0)) 0 = Claimed slot
           \<and> slot < capacity t0 \<and> r = slot_id (capacity t0) slot
           \<and> st' = claim_slot st env t0 rest0 hash slot n fs)"
  have e: "t0 = t" "rest0 = rest"
    using c assms(2) by simp_all
  from d show ?thesis
  proof (elim disjE conjE exE)
    assume "st' = st"
    then have "current_table st' = [] @ t # rest \<and> table_ext t t"
      using assms(2) by (simp add: table_ext_refl)
    then show ?thesis by blast
  next
    fix slot assume "st' = st"
    then have "current_table st' = [] @ t # rest \<and> table_ext t t"
      using assms(2) by (simp add: table_ext_refl)
    then show ?thesis by blast
  next
    fix slot
    assume p: "put_probe (keys t0) hash (capacity t0) (first_slot hash (capacity t0)) 0 = Claimed slot"
      and s: "st' = claim_slot st env t0 rest0 hash slot n fs"
    define t' where "t' = t\<lparr>keys := (keys t)(slot := hash), size_tab := size_tab t + 1,
          values_tab := (values_tab t)(slot := fst (migrate_or_store (allocator st) env rest hash n fs))\<rparr>"
    have "keys t slot = 0"
      using put_probe_claimed_empty [OF p] e by simp
    then have x: "table_ext t t'"
      by (auto simp: table_ext_def t'_def)
    have "current_table st' = [] @ t' # rest \<or> current_table st' = [allocate (capacity t * 2)] @ t' # rest"
      unfolding s e t'_def claim_slot_eq by simp
    then show ?thesis
      using x by blast
  qed
qed

lemma puts_to_shape:
  assumes "puts_to st st'" "current_table st = t # rest"
  shows "\<exists>new t'. current_table st' = new @ t' # rest \<and> table_ext t t'"
  using assms
proof (induction rule: puts_to.induct)
  case (puts_refl st)
  then have "current_table st = [] @ t # rest \<and> table_ext t t"
    by (simp add: table_ext_refl)
  then show ?case by blast
next
  case (puts_step st st1 env n fs r st2)
  then obtain new t1 where a: "current_table st1 = new @ t1 # rest" "table_ext t t1"
    by blast
  show ?case
  proof (cases new)
    case Nil
    then obtain new' t2 where "current_table st2 = new' @ t2 # rest" "table_ext t1 t2"
      using put_chain_shape [OF puts_step.hyps(2), of t1 rest] a(1) by auto
    then show ?thesis
      using a(2) table_ext_trans by blast
  next
    case (Cons x xs)
    then obtain new' x' where "current_table st2 = new' @ x' # (xs @ t1 # rest)"
      using put_chain_shape [OF puts_step.hyps(2), of x "xs @ t1 # rest"] a(1) by auto
    then have "current_table st2 = (new' @ x' # xs) @ t1 # rest"
      by simp
    then show ?thesis
      using a(2) by blast
  qed
qed

lemma calcHash_2: "calcHash 1 [2] = Some hash_2"
  by (simp add: calcHash_def sizeof_ASGCT_CallFrame_def M_def R_def Let_def hash_2_def)

lemma first_slot_2: "first_slot hash_2 65536 = 9234"
  by (simp add: first_slot_def hash_2_def)

lemma put_new_1: "put (CallTraceStorage_new env_ok) env_ok 1 [1] = Some (2351, one_trace_example)"
proof -
  have "put_probe (\<lambda>_. 0) 10357027354812746030 65536 2350 0 = Claimed 2350"
    by (subst put_probe.simps) simp
  then show ?thesis
    by (simp add: put_def calcHash_1 CallTraceStorage_new_def env_ok_def allocate_def
        INITIAL_CAPACITY_def first_slot_1 slot_id_def claim_slot_eq migrate_or_store_def
        storeCallTrace_def copy_frames_def one_trace_example_def hash_1_def)
qed

lemma put_one_2: "put one_trace_example env_ok 1 [2] = Some (9235, two_trace_example)"
proof -
  have "put_probe ((\<lambda>_. 0)(2350 := hash_1)) hash_2 65536 9234 0 = Claimed 9234"
    by (subst put_probe.simps) (simp add: hash_2_def)
  then show ?thesis
    by (simp add: put_def calcHash_2 one_trace_example_def env_ok_def
        INITIAL_CAPACITY_def first_slot_2 slot_id_def claim_slot_eq migrate_or_store_def
        storeCallTrace_def copy_frames_def two_trace_example_def fun_upd_twist)
qed

lemma put_two_1: "put two_trace_example env_ok 1 [1] = Some (2351, two_trace_example)"
proof -
  have "put_probe ((\<lambda>_. 0)(2350 := hash_1, 9234 := hash_2)) hash_1 65536 2350 0 = Hit 2350"
    by (subst put_probe.simps) (simp add: hash_2_def)
  then show ?thesis
    using first_slot_1
    by (simp add: put_def calcHash_1 two_trace_example_def slot_id_def INITIAL_CAPACITY_def hash_1_def)
qed

subsection \<open>Migration from the predecessor\<close>



subsection \<open>The probe sequence\<close>

lemma step_suc_eq: "unat (step :: u32) < unat (cap :: u32) \<Longrightarrow> unat (step + 1) = Suc (unat step)"
proof -
  assume a: "unat step < unat cap"
  have "unat step + 1 < 2 ^ 32"
    using a unsigned_less [of cap, where 'a = nat] by simp
  then show ?thesis
    using unat_add_lem [of step 1] by simp
qed

text \<open>What the result of the probe loop of put says about the probed slots.\<close>

lemma put_probe_char:
  assumes "unat step < unat cap" "slot = probe_slot cap s0 (unat step)"
    "put_probe ks hash cap slot step = r"
  shows "case r of
           Hit s \<Rightarrow> \<exists>k. unat step \<le> k \<and> k < unat cap \<and> s = probe_slot cap s0 k \<and> ks s = hash \<and>
                     (\<forall>j. unat step \<le> j \<and> j < k \<longrightarrow>
                        ks (probe_slot cap s0 j) \<noteq> hash \<and> ks (probe_slot cap s0 j) \<noteq> 0)
         | Claimed s \<Rightarrow> \<exists>k. unat step \<le> k \<and> k < unat cap \<and> s = probe_slot cap s0 k \<and>
                     ks s = 0 \<and> hash \<noteq> 0 \<and>
                     (\<forall>j. unat step \<le> j \<and> j < k \<longrightarrow>
                        ks (probe_slot cap s0 j) \<noteq> hash \<and> ks (probe_slot cap s0 j) \<noteq> 0)
         | Overflow \<Rightarrow> \<forall>j. unat step \<le> j \<and> j < unat cap \<longrightarrow>
                        ks (probe_slot cap s0 j) \<noteq> hash \<and> ks (probe_slot cap s0 j) \<noteq> 0"
  using assms
proof (induction ks hash cap slot step arbitrary: r rule: put_probe.induct)
  case (1 ks hash cap slot step)
  have su: "unat (step + 1) = Suc (unat step)"
    using "1.prems"(1) by (rule step_suc_eq)
  show ?case
  proof (cases "ks slot = hash")
    case True
    then have "r = Hit slot"
      using "1.prems"(3) by (subst (asm) put_probe.simps) simp
    then show ?thesis
      using True "1.prems"(1,2) by auto
  next
    case nh: False
    show ?thesis
    proof (cases "ks slot = 0")
      case True
      then have "r = Claimed slot"
        using "1.prems"(3) nh by (subst (asm) put_probe.simps) simp
      then show ?thesis
        using True nh "1.prems"(1,2) by auto
    next
      case nz: False
      show ?thesis
      proof (cases "cap \<le> step + 1")
        case True
        then have r: "r = Overflow"
          using "1.prems"(3) nh nz by (subst (asm) put_probe.simps) simp
        have "unat cap \<le> Suc (unat step)"
          using True su by (simp add: word_le_nat_alt)
        then have "j = unat step" if "unat step \<le> j" "j < unat cap" for j
          using that by simp
        then show ?thesis
          using r nh nz "1.prems"(2) by auto
      next
        case False
        then have lt: "unat (step + 1) < unat cap"
          by (simp add: word_le_nat_alt)
        have sl: "(slot + (step + 1)) AND (cap - 1) = probe_slot cap s0 (unat (step + 1))"
          using "1.prems"(2) su by (simp add: add.commute)
        have rec: "put_probe ks hash cap ((slot + (step + 1)) AND (cap - 1)) (step + 1) = r"
          using "1.prems"(3) put_probe_unfold_rec [of ks slot hash cap step] nh nz False by simp
        note ih = "1.IH" [OF nh nz False lt sl rec]
        have first: "ks (probe_slot cap s0 (unat step)) \<noteq> hash \<and> ks (probe_slot cap s0 (unat step)) \<noteq> 0"
          using nh nz "1.prems"(2) by simp
        have ext: "ks (probe_slot cap s0 j) \<noteq> hash \<and> ks (probe_slot cap s0 j) \<noteq> 0"
          if "\<forall>j. Suc (unat step) \<le> j \<and> j < k \<longrightarrow>
                ks (probe_slot cap s0 j) \<noteq> hash \<and> ks (probe_slot cap s0 j) \<noteq> 0"
            "unat step \<le> j" "j < k" for j k
          using that first by (cases "j = unat step") auto
        show ?thesis
        proof (cases r)
          case (Hit s)
          then obtain k where k: "Suc (unat step) \<le> k" "k < unat cap" "s = probe_slot cap s0 k"
            "ks s = hash" "\<forall>j. Suc (unat step) \<le> j \<and> j < k \<longrightarrow>
                ks (probe_slot cap s0 j) \<noteq> hash \<and> ks (probe_slot cap s0 j) \<noteq> 0"
            using ih su by auto
          have "unat step \<le> k \<and> k < unat cap \<and> s = probe_slot cap s0 k \<and> ks s = hash \<and>
                     (\<forall>j. unat step \<le> j \<and> j < k \<longrightarrow>
                        ks (probe_slot cap s0 j) \<noteq> hash \<and> ks (probe_slot cap s0 j) \<noteq> 0)"
            using k ext [OF k(5)] by simp
          then have "\<exists>k. unat step \<le> k \<and> k < unat cap \<and> s = probe_slot cap s0 k \<and> ks s = hash \<and>
                     (\<forall>j. unat step \<le> j \<and> j < k \<longrightarrow>
                        ks (probe_slot cap s0 j) \<noteq> hash \<and> ks (probe_slot cap s0 j) \<noteq> 0)"
            by (rule exI)
          then show ?thesis
            using Hit by simp
        next
          case (Claimed s)
          then obtain k where k: "Suc (unat step) \<le> k" "k < unat cap" "s = probe_slot cap s0 k"
            "ks s = 0" "hash \<noteq> 0" "\<forall>j. Suc (unat step) \<le> j \<and> j < k \<longrightarrow>
                ks (probe_slot cap s0 j) \<noteq> hash \<and> ks (probe_slot cap s0 j) \<noteq> 0"
            using ih su by auto
          have "unat step \<le> k \<and> k < unat cap \<and> s = probe_slot cap s0 k \<and>
                     ks s = 0 \<and> hash \<noteq> 0 \<and>
                     (\<forall>j. unat step \<le> j \<and> j < k \<longrightarrow>
                        ks (probe_slot cap s0 j) \<noteq> hash \<and> ks (probe_slot cap s0 j) \<noteq> 0)"
            using k ext [OF k(6)] by simp
          then have "\<exists>k. unat step \<le> k \<and> k < unat cap \<and> s = probe_slot cap s0 k \<and>
                     ks s = 0 \<and> hash \<noteq> 0 \<and>
                     (\<forall>j. unat step \<le> j \<and> j < k \<longrightarrow>
                        ks (probe_slot cap s0 j) \<noteq> hash \<and> ks (probe_slot cap s0 j) \<noteq> 0)"
            by (rule exI)
          then show ?thesis
            using Claimed by simp
        next
          case Overflow
          then have a: "\<forall>j. Suc (unat step) \<le> j \<and> j < unat cap \<longrightarrow>
                ks (probe_slot cap s0 j) \<noteq> hash \<and> ks (probe_slot cap s0 j) \<noteq> 0"
            using ih su by simp
          have "\<forall>j. unat step \<le> j \<and> j < unat cap \<longrightarrow>
                ks (probe_slot cap s0 j) \<noteq> hash \<and> ks (probe_slot cap s0 j) \<noteq> 0"
            using ext [OF a] by blast
          then show ?thesis
            using Overflow by simp
        qed
      qed
    qed
  qed
qed

lemma unat_and_dec_pow2:
  assumes "n < 32"
  shows "unat ((x :: u32) AND (2 ^ n - 1)) = unat x mod 2 ^ n"
proof -
  have "x AND (2 ^ n - 1) = take_bit n x"
    by (simp add: take_bit_eq_mask mask_eq_decr_exp)
  moreover have "unat (take_bit n x) = take_bit n (unat x)"
    by (rule unsigned_take_bit_eq)
  ultimately show ?thesis
    by (simp only: take_bit_eq_mod)
qed

lemma tri_suc: "Suc k * (Suc k + 1) div 2 = k * (k + 1) div 2 + Suc k"
proof -
  have "Suc k * (Suc k + 1) = 2 * Suc k + k * (k + 1)"
    by simp
  moreover have "(2 * Suc k + k * (k + 1)) div 2 = Suc k + k * (k + 1) div 2"
    by (rule div_mult_self4) simp
  ultimately show ?thesis
    by (simp only: add.commute)
qed

lemma unat_add_of_nat_mod:
  assumes "n \<le> 32"
  shows "unat ((a :: u32) + of_nat k) mod 2 ^ n = (unat a + k) mod 2 ^ n"
proof -
  define W where "W = (2::nat) ^ 32"
  have d: "(2::nat) ^ n dvd W"
    unfolding W_def using assms by (rule le_imp_power_dvd)
  have "unat (a + of_nat k) = (unat a + k mod W) mod W"
    by (simp add: W_def unat_word_ariths unat_of_nat)
  also have "\<dots> = (unat a + k) mod W"
    by (rule mod_add_right_eq)
  finally have "unat (a + of_nat k) mod 2 ^ n = (unat a + k) mod W mod 2 ^ n"
    by simp
  also have "\<dots> = (unat a + k) mod 2 ^ n"
    using d by (rule mod_mod_cancel)
  finally show ?thesis .
qed

lemma probe_slot_unat:
  assumes "n < 32" "unat s0 < 2 ^ n"
  shows "unat (probe_slot (2 ^ n) s0 k) = (unat s0 + k * (k + 1) div 2) mod 2 ^ n"
proof (induction k)
  case 0
  then show ?case using assms by simp
next
  case (Suc k)
  have "unat (probe_slot (2 ^ n) s0 (Suc k))
      = unat (probe_slot (2 ^ n) s0 k + of_nat (Suc k)) mod 2 ^ n"
    using assms(1) by (simp only: probe_slot.simps unat_and_dec_pow2)
  also have "\<dots> = (unat (probe_slot (2 ^ n) s0 k) + Suc k) mod 2 ^ n"
    using assms(1) by (intro unat_add_of_nat_mod) simp
  also have "\<dots> = ((unat s0 + k * (k + 1) div 2) mod 2 ^ n + Suc k) mod 2 ^ n"
    by (simp only: Suc.IH)
  also have "\<dots> = ((unat s0 + k * (k + 1) div 2) + Suc k) mod 2 ^ n"
    by (rule mod_add_left_eq)
  also have "\<dots> = (unat s0 + Suc k * (Suc k + 1) div 2) mod 2 ^ n"
    by (simp only: tri_suc add.assoc)
  finally show ?case .
qed

lemma tri_double: "2 * (k * (k + 1) div 2) = k * (k + 1)" for k :: nat
  by simp

lemma tri_mono: "i \<le> j \<Longrightarrow> i * (i + 1) div 2 \<le> j * (j + 1) div 2" for i j :: nat
  by (intro div_le_mono mult_le_mono) simp_all

lemma tri_inj:
  fixes i j n a :: nat
  assumes ij: "i < j" and jn: "j < 2 ^ n"
    and eq: "(a + i * (i + 1) div 2) mod 2 ^ n = (a + j * (j + 1) div 2) mod 2 ^ n"
  shows False
proof -
  define d where "d = j - i"
  have j: "j = i + d" and d0: "0 < d"
    using ij by (simp_all add: d_def)
  define x where "x = i * (i + 1) div 2"
  define y where "y = j * (j + 1) div 2"
  have "a + x \<le> a + y"
    using ij tri_mono [of i j] by (simp add: x_def y_def)
  moreover have "(a + y) mod 2 ^ n = (a + x) mod 2 ^ n"
    using eq by (simp add: x_def y_def)
  ultimately have "2 ^ n dvd (a + y) - (a + x)"
    by (simp only: mod_eq_dvd_iff_nat)
  then have "2 ^ n dvd j * (j + 1) div 2 - i * (i + 1) div 2"
    by (simp add: x_def y_def)
  then have "2 * 2 ^ n dvd 2 * (j * (j + 1) div 2 - i * (i + 1) div 2)"
    by (rule mult_dvd_mono [OF dvd_refl])
  also have "2 * (j * (j + 1) div 2 - i * (i + 1) div 2) = j * (j + 1) - i * (i + 1)"
    by (simp only: diff_mult_distrib2 tri_double)
  also have "\<dots> = d * (2 * i + d + 1)"
    unfolding j by (simp add: algebra_simps)
  finally have dv0: "2 ^ Suc n dvd d * (2 * i + d + 1)"
    by simp
  define m where "m = 2 * i + d + 1"
  define P where "P = (2::nat) ^ Suc n"
  have dv: "P dvd d * m"
    using dv0 by (simp only: m_def P_def)
  have m0: "0 < m" and mP: "m < P" and dP: "d < P" and par: "odd d \<or> odd m"
    using jn j d0 by (auto simp: m_def P_def)
  show False
  proof (cases "odd d")
    case True
    then have "coprime P d"
      by (simp add: P_def)
    then have "P dvd m"
      using dv coprime_dvd_mult_right_iff by blast
    then have "P \<le> m"
      using m0 by (rule dvd_imp_le)
    then show False
      using mP by simp
  next
    case False
    then have "coprime P m"
      using par by (simp add: P_def)
    then have "P dvd d"
      using dv coprime_dvd_mult_left_iff by blast
    then have "P \<le> d"
      using d0 by (rule dvd_imp_le)
    then show False
      using dP by simp
  qed
qed

lemma probe_slot_inj:
  assumes n: "n < 32" and s0: "unat s0 < 2 ^ n"
  shows "inj_on (probe_slot (2 ^ n) s0) {..<2 ^ n}"
proof (rule inj_onI)
  fix i j :: nat
  assume i: "i \<in> {..<2 ^ n}" and j: "j \<in> {..<2 ^ n}"
    and e: "probe_slot (2 ^ n) s0 i = probe_slot (2 ^ n) s0 j"
  have m: "(unat s0 + i * (i + 1) div 2) mod 2 ^ n = (unat s0 + j * (j + 1) div 2) mod 2 ^ n"
    using e probe_slot_unat [OF n s0, of i] probe_slot_unat [OF n s0, of j] by simp
  show "i = j"
  proof (cases i j rule: linorder_cases)
    case less
    then show ?thesis using tri_inj [of i j n "unat s0"] j m by simp
  next
    case equal
    then show ?thesis .
  next
    case greater
    then show ?thesis using tri_inj [of j i n "unat s0"] i m by simp
  qed
qed

lemma probe_slot_surj:
  assumes n: "n < 32" and s0: "unat s0 < 2 ^ n"
  shows "probe_slot (2 ^ n) s0 ` {..<2 ^ n} = {s. s < 2 ^ n}"
proof -
  let ?f = "\<lambda>k. unat (probe_slot (2 ^ n) s0 k)"
  have inj: "inj_on ?f {..<2 ^ n}"
    using probe_slot_inj [OF n s0] by (auto simp: inj_on_def word_unat_eq_iff)
  have sub: "?f ` {..<2 ^ n} \<subseteq> {..<2 ^ n}"
    using probe_slot_unat [OF n s0] by auto
  have img: "?f ` {..<2 ^ n} = {..<2 ^ n}"
    by (rule endo_inj_surj [OF _ sub inj]) simp
  have u: "unat ((2::u32) ^ n) = 2 ^ n"
    using n by (rule unat_pow2_u32)
  show ?thesis
  proof (intro set_eqI iffI)
    fix s assume "s \<in> probe_slot (2 ^ n) s0 ` {..<2 ^ n}"
    then obtain k where "s = probe_slot (2 ^ n) s0 k"
      by auto
    then have "unat s < 2 ^ n"
      using probe_slot_unat [OF n s0, of k] by simp
    then show "s \<in> {s. s < 2 ^ n}"
      using u by (simp add: word_less_nat_alt)
  next
    fix s :: u32 assume "s \<in> {s. s < 2 ^ n}"
    then have "unat s \<in> {..<2 ^ n}"
      using u by (simp add: word_less_nat_alt)
    then obtain k where k: "k \<in> {..<2 ^ n}" "unat s = ?f k"
      using img by (metis (no_types, lifting) imageE)
    then have "s = probe_slot (2 ^ n) s0 k"
      by (simp add: word_unat_eq_iff)
    then show "s \<in> probe_slot (2 ^ n) s0 ` {..<2 ^ n}"
      using k(1) by blast
  qed
qed

lemma find_probe_put_probe:
  "find_probe ks hash cap slot step =
     (case put_probe ks hash cap slot step of Hit s \<Rightarrow> Some s | Claimed s \<Rightarrow> None | Overflow \<Rightarrow> None)"
proof (induction ks hash cap slot step rule: put_probe.induct)
  case (1 ks hash cap slot step)
  show ?case
  proof (cases "ks slot = hash \<or> ks slot = 0 \<or> cap \<le> step + 1")
    case True
    then show ?thesis
      by (subst find_probe.simps, subst put_probe.simps) auto
  next
    case False
    then have "find_probe ks hash cap slot step
        = find_probe ks hash cap ((slot + (step + 1)) AND (cap - 1)) (step + 1)"
      by (subst find_probe.simps) simp
    then show ?thesis
      using "1.IH" False put_probe_unfold_rec [of ks slot hash cap step] by simp
  qed
qed


lemma pow2_u32_nonzero: "n < 32 \<Longrightarrow> (2::u32) ^ n \<noteq> 0"
  using unat_pow2_u32 [of n] by (metis power_not_zero unat_0 zero_neq_numeral)

lemma put_probe_overflow_iff:
  assumes n: "n < 32"
  shows "(put_probe ks hash (2 ^ n) (first_slot hash (2 ^ n)) 0 = Overflow)
       = (\<forall>s < 2 ^ n. ks s \<noteq> hash \<and> ks s \<noteq> 0)"
proof
  let ?s0 = "first_slot hash (2 ^ n)"
  have z: "(2::u32) ^ n \<noteq> 0"
    using n by (rule pow2_u32_nonzero)
  have u: "unat ((2::u32) ^ n) = 2 ^ n"
    using n by (rule unat_pow2_u32)
  have s0: "unat ?s0 < 2 ^ n"
    using first_slot_lt [OF z, of hash] u by (simp add: word_less_nat_alt)
  {
    assume o: "put_probe ks hash (2 ^ n) ?s0 0 = Overflow"
    have "unat (0::u32) < unat ((2::u32) ^ n)"
      using u by simp
    moreover have "?s0 = probe_slot (2 ^ n) ?s0 (unat (0::u32))"
      by simp
    ultimately have "case Overflow of
           Hit s \<Rightarrow> \<exists>k. unat (0::u32) \<le> k \<and> k < unat ((2::u32) ^ n) \<and> s = probe_slot (2 ^ n) ?s0 k \<and> ks s = hash \<and>
                     (\<forall>j. unat (0::u32) \<le> j \<and> j < k \<longrightarrow>
                        ks (probe_slot (2 ^ n) ?s0 j) \<noteq> hash \<and> ks (probe_slot (2 ^ n) ?s0 j) \<noteq> 0)
         | Claimed s \<Rightarrow> \<exists>k. unat (0::u32) \<le> k \<and> k < unat ((2::u32) ^ n) \<and> s = probe_slot (2 ^ n) ?s0 k \<and>
                     ks s = 0 \<and> hash \<noteq> 0 \<and>
                     (\<forall>j. unat (0::u32) \<le> j \<and> j < k \<longrightarrow>
                        ks (probe_slot (2 ^ n) ?s0 j) \<noteq> hash \<and> ks (probe_slot (2 ^ n) ?s0 j) \<noteq> 0)
         | Overflow \<Rightarrow> \<forall>j. unat (0::u32) \<le> j \<and> j < unat ((2::u32) ^ n) \<longrightarrow>
                        ks (probe_slot (2 ^ n) ?s0 j) \<noteq> hash \<and> ks (probe_slot (2 ^ n) ?s0 j) \<noteq> 0"
      using o by (rule put_probe_char)
    then have all: "\<forall>j < 2 ^ n. ks (probe_slot (2 ^ n) ?s0 j) \<noteq> hash \<and> ks (probe_slot (2 ^ n) ?s0 j) \<noteq> 0"
      using u by simp
    show "\<forall>s < 2 ^ n. ks s \<noteq> hash \<and> ks s \<noteq> 0"
    proof (intro allI impI)
      fix s :: u32 assume "s < 2 ^ n"
      then have "s \<in> probe_slot (2 ^ n) ?s0 ` {..<2 ^ n}"
        using probe_slot_surj [OF n s0] by simp
      then show "ks s \<noteq> hash \<and> ks s \<noteq> 0"
        using all by auto
    qed
  }
  {
    assume a: "\<forall>s < 2 ^ n. ks s \<noteq> hash \<and> ks s \<noteq> 0"
    show "put_probe ks hash (2 ^ n) ?s0 0 = Overflow"
    proof (cases "put_probe ks hash (2 ^ n) ?s0 0")
      case (Hit s)
      then have "s < 2 ^ n" "ks s = hash"
        using put_probe_slot_lt [OF z first_slot_lt [OF z] Hit] put_probe_hit_key [OF Hit] by auto
      then show ?thesis using a by auto
    next
      case (Claimed s)
      then have "s < 2 ^ n" "ks s = 0"
        using put_probe_slot_lt [OF z first_slot_lt [OF z] Claimed] put_probe_claimed_empty [OF Claimed]
        by auto
      then show ?thesis using a by auto
    next
      case Overflow
      then show ?thesis .
    qed
  }
qed


lemma first_probe_unique:
  assumes "first_probe ks hash cap s0 k" "first_probe ks hash cap s0 k'"
  shows "k = k'"
proof (cases k k' rule: linorder_cases)
  case less
  then show ?thesis using assms by (auto simp: first_probe_def)
next
  case equal
  then show ?thesis .
next
  case greater
  then show ?thesis using assms by (auto simp: first_probe_def)
qed

lemma put_probe_first:
  assumes z: "cap \<noteq> 0"
  shows "case put_probe ks hash cap s0 0 of
           Hit s \<Rightarrow> \<exists>k. first_probe ks hash cap s0 k \<and> s = probe_slot cap s0 k \<and> ks s = hash
         | Claimed s \<Rightarrow> \<exists>k. first_probe ks hash cap s0 k \<and> s = probe_slot cap s0 k \<and> ks s = 0 \<and> hash \<noteq> 0
         | Overflow \<Rightarrow> \<forall>k. \<not> first_probe ks hash cap s0 k"
proof -
  have u0: "unat (0::u32) < unat cap"
    using z by (simp add: unat_gt_0)
  have ch: "case put_probe ks hash cap s0 0 of
           Hit s \<Rightarrow> \<exists>k. unat (0::u32) \<le> k \<and> k < unat cap \<and> s = probe_slot cap s0 k \<and> ks s = hash \<and>
                     (\<forall>j. unat (0::u32) \<le> j \<and> j < k \<longrightarrow>
                        ks (probe_slot cap s0 j) \<noteq> hash \<and> ks (probe_slot cap s0 j) \<noteq> 0)
         | Claimed s \<Rightarrow> \<exists>k. unat (0::u32) \<le> k \<and> k < unat cap \<and> s = probe_slot cap s0 k \<and>
                     ks s = 0 \<and> hash \<noteq> 0 \<and>
                     (\<forall>j. unat (0::u32) \<le> j \<and> j < k \<longrightarrow>
                        ks (probe_slot cap s0 j) \<noteq> hash \<and> ks (probe_slot cap s0 j) \<noteq> 0)
         | Overflow \<Rightarrow> \<forall>j. unat (0::u32) \<le> j \<and> j < unat cap \<longrightarrow>
                        ks (probe_slot cap s0 j) \<noteq> hash \<and> ks (probe_slot cap s0 j) \<noteq> 0"
    by (rule put_probe_char [OF u0 _ refl]) simp
  show ?thesis
  proof (cases "put_probe ks hash cap s0 0")
    case (Hit s)
    then obtain k where "k < unat cap" "s = probe_slot cap s0 k" "ks s = hash"
      "\<forall>j < k. ks (probe_slot cap s0 j) \<noteq> hash \<and> ks (probe_slot cap s0 j) \<noteq> 0"
      using ch by auto
    then have "first_probe ks hash cap s0 k \<and> s = probe_slot cap s0 k \<and> ks s = hash"
      by (simp add: first_probe_def)
    then show ?thesis
      using Hit by auto
  next
    case (Claimed s)
    then obtain k where "k < unat cap" "s = probe_slot cap s0 k" "ks s = 0" "hash \<noteq> 0"
      "\<forall>j < k. ks (probe_slot cap s0 j) \<noteq> hash \<and> ks (probe_slot cap s0 j) \<noteq> 0"
      using ch by auto
    then have "first_probe ks hash cap s0 k \<and> s = probe_slot cap s0 k \<and> ks s = 0 \<and> hash \<noteq> 0"
      by (simp add: first_probe_def)
    then show ?thesis
      using Claimed by auto
  next
    case Overflow
    then have "\<forall>j < unat cap. ks (probe_slot cap s0 j) \<noteq> hash \<and> ks (probe_slot cap s0 j) \<noteq> 0"
      using ch by simp
    then have "\<forall>k. \<not> first_probe ks hash cap s0 k"
      by (auto simp: first_probe_def)
    then show ?thesis
      using Overflow by simp
  qed
qed

lemma put_probe_iff:
  assumes z: "cap \<noteq> 0"
  shows "(put_probe ks hash cap s0 0 = Hit s)
           = (\<exists>k. first_probe ks hash cap s0 k \<and> s = probe_slot cap s0 k \<and> ks s = hash)"
    and "(put_probe ks hash cap s0 0 = Claimed s)
           = (\<exists>k. first_probe ks hash cap s0 k \<and> s = probe_slot cap s0 k \<and> ks s = 0 \<and> hash \<noteq> 0)"
    and "(put_probe ks hash cap s0 0 = Overflow) = (\<forall>k. \<not> first_probe ks hash cap s0 k)"
proof -
  note f = put_probe_first [OF z, of ks hash s0]
  note u = first_probe_unique [of ks hash cap s0]
  show "(put_probe ks hash cap s0 0 = Hit s)
           = (\<exists>k. first_probe ks hash cap s0 k \<and> s = probe_slot cap s0 k \<and> ks s = hash)"
  proof
    assume "put_probe ks hash cap s0 0 = Hit s"
    then show "\<exists>k. first_probe ks hash cap s0 k \<and> s = probe_slot cap s0 k \<and> ks s = hash"
      using f by simp
  next
    assume "\<exists>k. first_probe ks hash cap s0 k \<and> s = probe_slot cap s0 k \<and> ks s = hash"
    then obtain k where k: "first_probe ks hash cap s0 k" "s = probe_slot cap s0 k" "ks s = hash"
      by blast
    show "put_probe ks hash cap s0 0 = Hit s"
    proof (cases "put_probe ks hash cap s0 0")
      case (Hit s')
      then obtain k' where "first_probe ks hash cap s0 k'" "s' = probe_slot cap s0 k'"
        using f by auto
      then show ?thesis using Hit k u [of k k'] by simp
    next
      case (Claimed s')
      then obtain k' where "first_probe ks hash cap s0 k'" "s' = probe_slot cap s0 k'"
        "ks s' = 0" "hash \<noteq> 0"
        using f by auto
      then show ?thesis using k u [of k k'] by simp
    next
      case Overflow
      then show ?thesis using f k(1) by simp
    qed
  qed
  show "(put_probe ks hash cap s0 0 = Claimed s)
           = (\<exists>k. first_probe ks hash cap s0 k \<and> s = probe_slot cap s0 k \<and> ks s = 0 \<and> hash \<noteq> 0)"
  proof
    assume "put_probe ks hash cap s0 0 = Claimed s"
    then show "\<exists>k. first_probe ks hash cap s0 k \<and> s = probe_slot cap s0 k \<and> ks s = 0 \<and> hash \<noteq> 0"
      using f by simp
  next
    assume "\<exists>k. first_probe ks hash cap s0 k \<and> s = probe_slot cap s0 k \<and> ks s = 0 \<and> hash \<noteq> 0"
    then obtain k where k: "first_probe ks hash cap s0 k" "s = probe_slot cap s0 k" "ks s = 0"
      "hash \<noteq> 0"
      by blast
    show "put_probe ks hash cap s0 0 = Claimed s"
    proof (cases "put_probe ks hash cap s0 0")
      case (Hit s')
      then obtain k' where "first_probe ks hash cap s0 k'" "s' = probe_slot cap s0 k'" "ks s' = hash"
        using f by auto
      then show ?thesis using k u [of k k'] by simp
    next
      case (Claimed s')
      then obtain k' where "first_probe ks hash cap s0 k'" "s' = probe_slot cap s0 k'"
        using f by auto
      then show ?thesis using Claimed k u [of k k'] by simp
    next
      case Overflow
      then show ?thesis using f k(1) by simp
    qed
  qed
  show "(put_probe ks hash cap s0 0 = Overflow) = (\<forall>k. \<not> first_probe ks hash cap s0 k)"
  proof
    assume "put_probe ks hash cap s0 0 = Overflow"
    then show "\<forall>k. \<not> first_probe ks hash cap s0 k"
      using f by simp
  next
    assume a: "\<forall>k. \<not> first_probe ks hash cap s0 k"
    show "put_probe ks hash cap s0 0 = Overflow"
      using f a by (cases "put_probe ks hash cap s0 0") auto
  qed
qed

lemma find_probe_iff:
  assumes z: "cap \<noteq> 0"
  shows "(find_probe ks hash cap s0 0 = Some s)
           = (\<exists>k. first_probe ks hash cap s0 k \<and> s = probe_slot cap s0 k \<and> ks s = hash)"
proof -
  have "(find_probe ks hash cap s0 0 = Some s) = (put_probe ks hash cap s0 0 = Hit s)"
    by (cases "put_probe ks hash cap s0 0") (simp_all add: find_probe_put_probe)
  then show ?thesis
    using put_probe_iff(1) [OF z, of ks hash s0 s] by simp
qed

text \<open>
  Claim C4: for a capacity \<open>2 ^ n\<close> and any hash, the slots probed in the first \<open>capacity\<close>
  iterations are pairwise distinct and are all the slots of the table; slot \<open>k\<close> of the
  sequence is the first slot plus the triangular number \<open>k (k + 1) / 2\<close>, modulo the capacity.
  Both loops follow this sequence and stop at the first iteration, below the capacity, whose
  slot holds the hash or is empty: the loop of \<open>put\<close> ends there with a hit or a claim, and
  \<open>findCallTrace\<close> returns the value of that slot if it holds the hash and null if it is empty.
  When there is no such iteration, which is exactly when every slot holds another non-zero
  key, \<open>put\<close> returns 0 and leaves the storage as it is, and \<open>findCallTrace\<close> returns null.
\<close>

theorem probe_visits_all_slots:
  assumes n: "n < 32"
  shows "inj_on (probe_slot (2 ^ n) (first_slot hash (2 ^ n))) {..<2 ^ n} \<and>
         probe_slot (2 ^ n) (first_slot hash (2 ^ n)) ` {..<2 ^ n} = {s. s < 2 ^ n} \<and>
         unat (probe_slot (2 ^ n) (first_slot hash (2 ^ n)) k)
           = (unat (first_slot hash (2 ^ n)) + k * (k + 1) div 2) mod 2 ^ n \<and>
         ((put_probe ks hash (2 ^ n) (first_slot hash (2 ^ n)) 0 = Overflow)
           = (\<forall>s < 2 ^ n. ks s \<noteq> hash \<and> ks s \<noteq> 0)) \<and>
         ((\<forall>s < 2 ^ n. ks s \<noteq> hash \<and> ks s \<noteq> 0) \<longrightarrow>
            findCallTrace \<lparr>capacity = 2 ^ n, size_tab = sz, keys = ks, values_tab = vs\<rparr> hash = None \<and>
            (\<forall>st env nf fs rest.
               calcHash nf fs = Some hash \<longrightarrow>
               current_table st
                 = \<lparr>capacity = 2 ^ n, size_tab = sz, keys = ks, values_tab = vs\<rparr> # rest \<longrightarrow>
               put st env nf fs = Some (0, st))) \<and>
         (\<forall>s. (put_probe ks hash (2 ^ n) (first_slot hash (2 ^ n)) 0 = Hit s)
                = (\<exists>k. first_probe ks hash (2 ^ n) (first_slot hash (2 ^ n)) k \<and>
                       s = probe_slot (2 ^ n) (first_slot hash (2 ^ n)) k \<and> ks s = hash)) \<and>
         (\<forall>s. (put_probe ks hash (2 ^ n) (first_slot hash (2 ^ n)) 0 = Claimed s)
                = (\<exists>k. first_probe ks hash (2 ^ n) (first_slot hash (2 ^ n)) k \<and>
                       s = probe_slot (2 ^ n) (first_slot hash (2 ^ n)) k \<and> ks s = 0 \<and> hash \<noteq> 0)) \<and>
         ((put_probe ks hash (2 ^ n) (first_slot hash (2 ^ n)) 0 = Overflow)
           = (\<forall>k. \<not> first_probe ks hash (2 ^ n) (first_slot hash (2 ^ n)) k)) \<and>
         (\<forall>s. (find_probe ks hash (2 ^ n) (first_slot hash (2 ^ n)) 0 = Some s)
                = (\<exists>k. first_probe ks hash (2 ^ n) (first_slot hash (2 ^ n)) k \<and>
                       s = probe_slot (2 ^ n) (first_slot hash (2 ^ n)) k \<and> ks s = hash)) \<and>
         (\<forall>k. first_probe ks hash (2 ^ n) (first_slot hash (2 ^ n)) k \<longrightarrow>
              findCallTrace \<lparr>capacity = 2 ^ n, size_tab = sz, keys = ks, values_tab = vs\<rparr> hash
                = (if ks (probe_slot (2 ^ n) (first_slot hash (2 ^ n)) k) = hash
                   then vs (probe_slot (2 ^ n) (first_slot hash (2 ^ n)) k) else None)) \<and>
         ((\<forall>k. \<not> first_probe ks hash (2 ^ n) (first_slot hash (2 ^ n)) k) \<longrightarrow>
              findCallTrace \<lparr>capacity = 2 ^ n, size_tab = sz, keys = ks, values_tab = vs\<rparr> hash = None)"
proof -
  let ?s0 = "first_slot hash (2 ^ n)"
  let ?t = "\<lparr>capacity = 2 ^ n, size_tab = sz, keys = ks, values_tab = vs\<rparr>"
  have z: "(2::u32) ^ n \<noteq> 0"
    using n by (rule pow2_u32_nonzero)
  have u: "unat ((2::u32) ^ n) = 2 ^ n"
    using n by (rule unat_pow2_u32)
  have s0: "unat ?s0 < 2 ^ n"
    using first_slot_lt [OF z, of hash] u by (simp add: word_less_nat_alt)
  note ov = put_probe_overflow_iff [OF n, of ks hash]
  have 5: "findCallTrace ?t hash = None \<and>
            (\<forall>st env nf fs rest.
               calcHash nf fs = Some hash \<longrightarrow>
               current_table st = ?t # rest \<longrightarrow>
               put st env nf fs = Some (0, st))"
    if a: "\<forall>s < 2 ^ n. ks s \<noteq> hash \<and> ks s \<noteq> 0"
  proof -
    have o: "put_probe ks hash (2 ^ n) ?s0 0 = Overflow"
      using ov a by simp
    then have "find_probe ks hash (2 ^ n) ?s0 0 = None"
      by (simp add: find_probe_put_probe)
    then show ?thesis
      using o z by (simp add: findCallTrace_def put_def)
  qed
  note pi = put_probe_iff [OF z, of ks hash ?s0]
  note fi = find_probe_iff [OF z, of ks hash ?s0]
  have 9: "findCallTrace ?t hash
      = (if ks (probe_slot (2 ^ n) ?s0 k) = hash then vs (probe_slot (2 ^ n) ?s0 k) else None)"
    if f: "first_probe ks hash (2 ^ n) ?s0 k" for k
  proof (cases "ks (probe_slot (2 ^ n) ?s0 k) = hash")
    case True
    then have "find_probe ks hash (2 ^ n) ?s0 0 = Some (probe_slot (2 ^ n) ?s0 k)"
      using fi [of "probe_slot (2 ^ n) ?s0 k"] f by blast
    then show ?thesis
      using True by (simp add: findCallTrace_def)
  next
    case False
    have "find_probe ks hash (2 ^ n) ?s0 0 \<noteq> Some s" for s
    proof
      assume "find_probe ks hash (2 ^ n) ?s0 0 = Some s"
      then obtain k' where k': "first_probe ks hash (2 ^ n) ?s0 k'"
        "s = probe_slot (2 ^ n) ?s0 k'" "ks s = hash"
        using fi [of s] by blast
      then have "k' = k"
        using first_probe_unique [OF k'(1) f] by simp
      then show False
        using k' False by simp
    qed
    then have "find_probe ks hash (2 ^ n) ?s0 0 = None"
      by (cases "find_probe ks hash (2 ^ n) ?s0 0") auto
    then show ?thesis
      using False by (simp add: findCallTrace_def)
  qed
  have 10: "findCallTrace ?t hash = None"
    if a: "\<forall>k. \<not> first_probe ks hash (2 ^ n) ?s0 k"
  proof -
    have "find_probe ks hash (2 ^ n) ?s0 0 \<noteq> Some s" for s
      using fi [of s] a by blast
    then have "find_probe ks hash (2 ^ n) ?s0 0 = None"
      by (cases "find_probe ks hash (2 ^ n) ?s0 0") auto
    then show ?thesis
      by (simp add: findCallTrace_def)
  qed
  have a: "inj_on (probe_slot (2 ^ n) ?s0) {..<2 ^ n} \<and>
         probe_slot (2 ^ n) ?s0 ` {..<2 ^ n} = {s. s < 2 ^ n} \<and>
         unat (probe_slot (2 ^ n) ?s0 k) = (unat ?s0 + k * (k + 1) div 2) mod 2 ^ n \<and>
         ((put_probe ks hash (2 ^ n) ?s0 0 = Overflow) = (\<forall>s < 2 ^ n. ks s \<noteq> hash \<and> ks s \<noteq> 0)) \<and>
         ((\<forall>s < 2 ^ n. ks s \<noteq> hash \<and> ks s \<noteq> 0) \<longrightarrow>
            findCallTrace ?t hash = None \<and>
            (\<forall>st env nf fs rest.
               calcHash nf fs = Some hash \<longrightarrow>
               current_table st = ?t # rest \<longrightarrow>
               put st env nf fs = Some (0, st)))"
    using probe_slot_inj [OF n s0] probe_slot_surj [OF n s0] probe_slot_unat [OF n s0, of k] ov 5
    by blast
  have b: "(\<forall>s. (put_probe ks hash (2 ^ n) ?s0 0 = Hit s)
                = (\<exists>k. first_probe ks hash (2 ^ n) ?s0 k \<and>
                       s = probe_slot (2 ^ n) ?s0 k \<and> ks s = hash)) \<and>
         (\<forall>s. (put_probe ks hash (2 ^ n) ?s0 0 = Claimed s)
                = (\<exists>k. first_probe ks hash (2 ^ n) ?s0 k \<and>
                       s = probe_slot (2 ^ n) ?s0 k \<and> ks s = 0 \<and> hash \<noteq> 0)) \<and>
         ((put_probe ks hash (2 ^ n) ?s0 0 = Overflow)
           = (\<forall>k. \<not> first_probe ks hash (2 ^ n) ?s0 k)) \<and>
         (\<forall>s. (find_probe ks hash (2 ^ n) ?s0 0 = Some s)
                = (\<exists>k. first_probe ks hash (2 ^ n) ?s0 k \<and>
                       s = probe_slot (2 ^ n) ?s0 k \<and> ks s = hash))"
    using pi fi by blast
  have c: "(\<forall>k. first_probe ks hash (2 ^ n) ?s0 k \<longrightarrow>
              findCallTrace ?t hash
                = (if ks (probe_slot (2 ^ n) ?s0 k) = hash
                   then vs (probe_slot (2 ^ n) ?s0 k) else None)) \<and>
         ((\<forall>k. \<not> first_probe ks hash (2 ^ n) ?s0 k) \<longrightarrow> findCallTrace ?t hash = None)"
    using 9 10 by blast
  from a b c show ?thesis
    by (elim conjE, intro conjI) assumption+
qed

theorem probe_visits_all_slots_witness:
  "(16::nat) < 32 \<and>
   unat (probe_slot (2 ^ 16) (first_slot hash_1 (2 ^ 16)) 3) = 2356 \<and>
   put_probe (\<lambda>_. 5) hash_1 (2 ^ 16) (first_slot hash_1 (2 ^ 16)) 0 = Overflow \<and>
   first_probe ((\<lambda>_. 5)(2351 := hash_1)) hash_1 (2 ^ 16) (first_slot hash_1 (2 ^ 16)) 1 \<and>
   findCallTrace \<lparr>capacity = 2 ^ 16, size_tab = 2, keys = (\<lambda>_. 5)(2351 := hash_1),
                  values_tab = (\<lambda>_. None)(2351 := Some 7)\<rparr> hash_1 = Some 7"
proof -
  have h: "(16::nat) < 32"
    by simp
  have f: "first_slot hash_1 65536 = 2350"
    using first_slot_1 by (simp add: hash_1_def)
  have a: "\<forall>s < (2::u32) ^ 16. (5::u64) \<noteq> hash_1 \<and> (5::u64) \<noteq> 0"
    by (simp add: hash_1_def)
  have p1: "probe_slot 65536 2350 (Suc 0) = 2351"
    by simp
  have fp: "first_probe ((\<lambda>_. 5)(2351 := hash_1)) hash_1 (2 ^ 16) (first_slot hash_1 (2 ^ 16)) 1"
    by (simp add: first_probe_def f p1) (simp add: hash_1_def)
  have 1: "unat (probe_slot (2 ^ 16) (first_slot hash_1 (2 ^ 16)) 3) = 2356 \<and>
     put_probe (\<lambda>_. 5) hash_1 (2 ^ 16) (first_slot hash_1 (2 ^ 16)) 0 = Overflow"
    using probe_visits_all_slots [OF h, of hash_1 3 "\<lambda>_. 5"] a
    by (simp add: f)
  have 2: "findCallTrace \<lparr>capacity = 2 ^ 16, size_tab = 2, keys = (\<lambda>_. 5)(2351 := hash_1),
                  values_tab = (\<lambda>_. None)(2351 := Some 7)\<rparr> hash_1 = Some 7"
    using probe_visits_all_slots [OF h, of hash_1 0 "(\<lambda>_. 5)(2351 := hash_1)" 2
        "(\<lambda>_. None)(2351 := Some 7)"] fp
    by (simp add: f p1)
  show ?thesis
    using h 1 2 fp by simp
qed

subsection \<open>collect\<close>

lemma slot_id_eq_iff: "(slot_id (capacity t) s = k) = (s = slot_of t k)"
  by (auto simp: slot_id_def slot_of_def)

lemma slot_id_eq_iff': "(k = slot_id (capacity t) s) = (s = slot_of t k)"
  by (auto simp: slot_id_def slot_of_def)

lemma collect_slot_apply:
  "collect_slot t n mp k =
     (if keys t (of_nat n) \<noteq> 0 \<and> of_nat n = slot_of t k
      then Some (values_tab t (of_nat n)) else mp k)"
  by (auto simp: collect_slot_def slot_id_eq_iff')

lemma collect_slots_apply:
  "n \<le> unat (capacity t) \<Longrightarrow>
     fold (collect_slot t) [0..<n] m k =
       (if unat (slot_of t k) < n \<and> keys t (slot_of t k) \<noteq> 0
        then Some (values_tab t (slot_of t k)) else m k)"
proof (induction n)
  case 0
  then show ?case by simp
next
  case (Suc n)
  have u: "unat (of_nat n :: u32) = n"
    using Suc.prems by (intro le_unat_uoi [of _ "capacity t"]) simp
  have e: "(of_nat n = slot_of t k) = (n = unat (slot_of t k))"
    using u by (auto simp: word_unat_eq_iff)
  have "fold (collect_slot t) [0..<Suc n] m k
      = collect_slot t n (fold (collect_slot t) [0..<n] m) k"
    by simp
  also have "\<dots> = (if keys t (of_nat n) \<noteq> 0 \<and> of_nat n = slot_of t k
        then Some (values_tab t (of_nat n)) else fold (collect_slot t) [0..<n] m k)"
    by (rule collect_slot_apply)
  also have "\<dots> = (if unat (slot_of t k) < Suc n \<and> keys t (slot_of t k) \<noteq> 0
        then Some (values_tab t (slot_of t k)) else m k)"
    using Suc.IH Suc.prems e by (auto simp: less_Suc_eq)
  finally show ?case .
qed

lemma collect_table_apply:
  "collect_table t m k = (if emits t k then Some (values_tab t (slot_of t k)) else m k)"
  using collect_slots_apply [of "unat (capacity t)" t m k]
  by (simp add: collect_table_def emits_def word_less_nat_alt)

lemma collect_none:
  "\<forall>t \<in> set ts. \<not> emits t k \<Longrightarrow> fold collect_table ts m k = m k"
  by (induction ts arbitrary: m) (simp_all add: collect_table_apply)

lemma collect_one:
  assumes "emits t k" "\<forall>t' \<in> set pre. \<not> emits t' k" "\<forall>t' \<in> set post. \<not> emits t' k"
  shows "fold collect_table (pre @ t # post) m k = Some (values_tab t (slot_of t k))"
  using assms by (simp add: collect_none collect_table_apply)

lemma collect_dom:
  "dom (fold collect_table ts m) = dom m \<union> {k. \<exists>t \<in> set ts. emits t k}"
proof (induction ts arbitrary: m)
  case Nil
  then show ?case by simp
next
  case (Cons t ts)
  have "dom (collect_table t m) = dom m \<union> {k. emits t k}"
    by (auto simp: collect_table_apply dom_def)
  then show ?case
    using Cons.IH [of "collect_table t m"] by auto
qed

lemma emits_slot_id:
  "s < capacity t \<Longrightarrow> keys t s \<noteq> 0 \<Longrightarrow> emits t (slot_id (capacity t) s)"
  by (simp add: emits_def slot_of_def slot_id_def)

lemma emits_unique:
  assumes ok: "chain_ok ts" and len: "length ts \<le> 16"
    and i: "i < length ts" and j: "j < length ts"
    and s: "s < capacity (ts ! i)" and e: "emits (ts ! j) (slot_id (capacity (ts ! i)) s)"
  shows "i = j"
proof -
  let ?k = "slot_id (capacity (ts ! i)) s"
  have s': "slot_of (ts ! j) ?k < capacity (ts ! j)"
    using e by (simp add: emits_def)
  have "slot_id (capacity (ts ! j)) (slot_of (ts ! j) ?k) = ?k"
    by (simp add: slot_id_eq_iff)
  then show ?thesis
    using chain_slot_id [OF ok len i j s s'] by simp
qed

lemma collect_entry:
  assumes ok: "chain_ok (current_table st)" and len: "length (current_table st) \<le> 16"
    and i: "i < length (current_table st)"
    and s: "s < capacity (current_table st ! i)" and k: "keys (current_table st ! i) s \<noteq> 0"
  shows "collect st m (slot_id (capacity (current_table st ! i)) s)
           = Some (values_tab (current_table st ! i) s)"
proof -
  let ?ts = "current_table st"
  let ?k = "slot_id (capacity (?ts ! i)) s"
  have sp: "?ts = take i ?ts @ ?ts ! i # drop (Suc i) ?ts"
    using i by (rule id_take_nth_drop)
  have e: "emits (?ts ! i) ?k"
    using s k by (rule emits_slot_id)
  have pre: "\<forall>t' \<in> set (take i ?ts). \<not> emits t' ?k"
  proof
    fix t' assume "t' \<in> set (take i ?ts)"
    then obtain j where j: "j < i" "t' = ?ts ! j"
      using i by (auto simp: in_set_conv_nth)
    show "\<not> emits t' ?k"
      using emits_unique [OF ok len i _ s, of j] j i by auto
  qed
  have post: "\<forall>t' \<in> set (drop (Suc i) ?ts). \<not> emits t' ?k"
  proof
    fix t' assume "t' \<in> set (drop (Suc i) ?ts)"
    then obtain a where a: "a < length (drop (Suc i) ?ts)" "t' = drop (Suc i) ?ts ! a"
      by (metis in_set_conv_nth)
    define j where "j = Suc i + a"
    have j: "Suc i \<le> j" "j < length ?ts" "t' = ?ts ! j"
      using a i by (simp_all add: j_def)
    show "\<not> emits t' ?k"
      using emits_unique [OF ok len i _ s, of j] j by auto
  qed
  have "fold collect_table (take i ?ts @ ?ts ! i # drop (Suc i) ?ts) m ?k
      = Some (values_tab (?ts ! i) (slot_of (?ts ! i) ?k))"
    using e pre post by (rule collect_one)
  moreover have "slot_of (?ts ! i) ?k = s"
    using slot_id_eq_iff [of "?ts ! i" s ?k] by simp
  ultimately show ?thesis
    using sp by (simp add: collect_def)
qed

text \<open>
  Claim C2, as amended: when two different tables of the chain hold the same non-zero hash,
  \<open>collect\<close> emits an entry for each of them, under the identifier of its own slot; the two
  identifiers differ, so the entry of the older table does not overwrite the entry of the
  newer one.
\<close>

theorem collect_keeps_both_entries:
  assumes ok: "chain_ok (current_table st)" and len: "length (current_table st) \<le> 16"
    and i: "i < length (current_table st)" and j: "j < length (current_table st)"
    and ij: "i \<noteq> j"
    and s: "s < capacity (current_table st ! i)" and s': "s' < capacity (current_table st ! j)"
    and k: "keys (current_table st ! i) s = h" and k': "keys (current_table st ! j) s' = h"
    and h: "h \<noteq> 0"
  shows "collect st m (slot_id (capacity (current_table st ! i)) s)
           = Some (values_tab (current_table st ! i) s) \<and>
         collect st m (slot_id (capacity (current_table st ! j)) s')
           = Some (values_tab (current_table st ! j) s') \<and>
         slot_id (capacity (current_table st ! i)) s
           \<noteq> slot_id (capacity (current_table st ! j)) s'"
proof -
  have a: "keys (current_table st ! i) s \<noteq> 0" and b: "keys (current_table st ! j) s' \<noteq> 0"
    using k k' h by simp_all
  show ?thesis
    using collect_entry [OF ok len i s a] collect_entry [OF ok len j s' b]
      chain_slot_id [OF ok len i j s s'] ij by simp
qed

theorem collect_keeps_both_entries_witness:
  "chain_ok (current_table shared_hash_example) \<and>
   length (current_table shared_hash_example) \<le> 16 \<and>
   0 < length (current_table shared_hash_example) \<and>
   1 < length (current_table shared_hash_example) \<and> (0::nat) \<noteq> 1 \<and>
   77 < capacity (current_table shared_hash_example ! 0) \<and>
   77 < capacity (current_table shared_hash_example ! 1) \<and>
   keys (current_table shared_hash_example ! 0) 77 = 77 \<and>
   keys (current_table shared_hash_example ! 1) 77 = 77 \<and> (77::u64) \<noteq> 0 \<and>
   collect shared_hash_example Map.empty (slot_id (capacity (current_table shared_hash_example ! 0)) 77)
     = Some (Some 0) \<and>
   collect shared_hash_example Map.empty (slot_id (capacity (current_table shared_hash_example ! 1)) 77)
     = Some None"
proof -
  have h: "chain_ok (current_table shared_hash_example)"
    "length (current_table shared_hash_example) \<le> 16"
    "0 < length (current_table shared_hash_example)"
    "1 < length (current_table shared_hash_example)" "(0::nat) \<noteq> 1"
    "77 < capacity (current_table shared_hash_example ! 0)"
    "77 < capacity (current_table shared_hash_example ! 1)"
    "keys (current_table shared_hash_example ! 0) 77 = 77"
    "keys (current_table shared_hash_example ! 1) 77 = 77" "(77::u64) \<noteq> 0"
    by (simp_all add: shared_hash_example_def INITIAL_CAPACITY_def)
  have v: "values_tab (current_table shared_hash_example ! 0) 77 = Some 0"
    "values_tab (current_table shared_hash_example ! 1) 77 = None"
    by (simp_all add: shared_hash_example_def)
  show ?thesis
    using collect_keeps_both_entries [OF h, of Map.empty] h v by simp
qed

lemma shared_hash_collect:
  "keys (current_table shared_hash_example ! 0) 77 = keys (current_table shared_hash_example ! 1) 77 \<and>
   collect shared_hash_example Map.empty 65614 = Some (Some 0) \<and>
   collect shared_hash_example Map.empty 78 = Some None"
proof -
  have h: "chain_ok (current_table shared_hash_example)"
    "length (current_table shared_hash_example) \<le> 16"
    "0 < length (current_table shared_hash_example)"
    "1 < length (current_table shared_hash_example)"
    "77 < capacity (current_table shared_hash_example ! 0)"
    "77 < capacity (current_table shared_hash_example ! 1)"
    "keys (current_table shared_hash_example ! 0) 77 \<noteq> 0"
    "keys (current_table shared_hash_example ! 1) 77 \<noteq> 0"
    by (simp_all add: shared_hash_example_def INITIAL_CAPACITY_def)
  have a: "slot_id (capacity (current_table shared_hash_example ! 0)) 77 = 65614"
    "slot_id (capacity (current_table shared_hash_example ! 1)) 77 = 78"
    by (simp_all add: shared_hash_example_def slot_id_def INITIAL_CAPACITY_def)
  have v: "values_tab (current_table shared_hash_example ! 0) 77 = Some 0"
    "values_tab (current_table shared_hash_example ! 1) 77 = None"
    "keys (current_table shared_hash_example ! 0) 77 = keys (current_table shared_hash_example ! 1) 77"
    by (simp_all add: shared_hash_example_def)
  show ?thesis
    using collect_entry [OF h(1,2,3,5,7), of Map.empty] collect_entry [OF h(1,2,4,6,8), of Map.empty]
    by (simp only: a v)
qed

subsection \<open>Failures of put\<close>

lemma put_probe_result:
  assumes "put st env n fs = Some (r, st')" "current_table st = t # rest" "calcHash n fs = Some hash"
  shows "capacity t \<noteq> 0 \<and>
    (case put_probe (keys t) hash (capacity t) (first_slot hash (capacity t)) 0 of
       Hit slot \<Rightarrow> slot < capacity t \<and> keys t slot = hash \<and> r = slot_id (capacity t) slot \<and> st' = st
     | Claimed slot \<Rightarrow> slot < capacity t \<and> keys t slot = 0 \<and> hash \<noteq> 0 \<and>
         r = slot_id (capacity t) slot \<and> st' = claim_slot st env t rest hash slot n fs
     | Overflow \<Rightarrow> r = 0 \<and> st' = st)"
proof -
  have z: "capacity t \<noteq> 0"
    using assms by (auto simp: put_def split: if_splits)
  let ?p = "put_probe (keys t) hash (capacity t) (first_slot hash (capacity t)) 0"
  have lt: "slot < capacity t" if "?p = Hit slot \<or> ?p = Claimed slot" for slot
    using put_probe_slot_lt [OF z first_slot_lt [OF z] refl] that by blast
  show ?thesis
  proof (cases ?p)
    case (Hit slot)
    then show ?thesis
      using assms z lt [of slot] put_probe_hit_key [OF Hit] by (simp add: put_def)
  next
    case (Claimed slot)
    then show ?thesis
      using assms z lt [of slot] put_probe_claimed_empty [OF Claimed] by (simp add: put_def)
  next
    case Overflow
    then show ?thesis
      using assms z by (simp add: put_def)
  qed
qed






subsection \<open>Traces with hash 0\<close>

lemma collect_not_emitted:
  assumes ok: "chain_ok (t # rest)" and len: "length (t # rest) \<le> 16"
    and s: "slot < capacity t" and k: "keys t slot = 0"
  shows "fold collect_table (t # rest) m (slot_id (capacity t) slot) = m (slot_id (capacity t) slot)"
proof (rule collect_none, rule ballI)
  fix t' assume "t' \<in> set (t # rest)"
  then obtain j where j: "j < length (t # rest)" "t' = (t # rest) ! j"
    by (metis in_set_conv_nth)
  show "\<not> emits t' (slot_id (capacity t) slot)"
  proof
    assume e: "emits t' (slot_id (capacity t) slot)"
    have "0 = j"
      using emits_unique [OF ok len _ j(1), of 0 slot] s e j(2) by simp
    then have "emits t (slot_id (capacity t) slot)"
      using e j(2) by simp
    moreover have "slot_of t (slot_id (capacity t) slot) = slot"
      using slot_id_eq_iff [of t slot "slot_id (capacity t) slot"] by simp
    ultimately show False
      using k by (simp add: emits_def)
  qed
qed

lemma calcHash_empty: "calcHash 0 [] = Some 0"
  by (simp add: calcHash_def sizeof_ASGCT_CallFrame_def M_def R_def Let_def)

lemma put_one_empty: "put one_trace_example e 0 [] = Some (1, one_trace_example)"
proof -
  have "first_slot 0 65536 = 0"
    by (simp add: first_slot_def)
  moreover have "put_probe ((\<lambda>_. 0)(2350 := hash_1)) 0 65536 0 0 = Hit 0"
    by (subst put_probe.simps) simp
  ultimately show ?thesis
    by (simp add: put_def calcHash_empty one_trace_example_def slot_id_def INITIAL_CAPACITY_def)
qed

text \<open>
  Claim C10, as amended: when the hash of the trace is 0, \<open>put\<close> changes nothing (no key, no
  size, no trace), and any repetition in the same storage returns the same result. When one of
  the probed slots of the current table has key 0, \<open>put\<close> stops at the first of them and
  returns its identifier, which is not 0 in a chain of at most 16 tables, and \<open>collect\<close> of
  this storage emits no entry with this key (the map keeps what it had there); when every slot
  of the current table is occupied, \<open>put\<close> returns 0. The identifier is not reserved: nothing
  is said about \<open>collect\<close> after a later put.
\<close>

theorem put_hash_zero:
  assumes h: "calcHash n fs = Some 0" and p: "put st env n fs = Some (r, st')"
    and c: "current_table st = t # rest"
  shows "st' = st \<and> (\<forall>env'. put st env' n fs = Some (r, st)) \<and>
    (if \<exists>k < unat (capacity t). keys t (probe_slot (capacity t) (first_slot 0 (capacity t)) k) = 0
     then \<exists>k < unat (capacity t).
            keys t (probe_slot (capacity t) (first_slot 0 (capacity t)) k) = 0 \<and>
            (\<forall>j < k. keys t (probe_slot (capacity t) (first_slot 0 (capacity t)) j) \<noteq> 0) \<and>
            r = slot_id (capacity t) (probe_slot (capacity t) (first_slot 0 (capacity t)) k) \<and>
            (chain_ok (current_table st) \<and> length (current_table st) \<le> 16 \<longrightarrow>
               r \<noteq> 0 \<and> collect st m r = m r)
     else r = 0)"
proof -
  let ?cap = "capacity t"
  let ?s0 = "first_slot 0 ?cap"
  let ?p = "put_probe (keys t) 0 ?cap ?s0 0"
  note res = put_probe_result [OF p c h]
  have z: "?cap \<noteq> 0"
    using res by simp
  have u0: "unat (0::u32) < unat ?cap"
    using z by (simp add: unat_gt_0)
  have ch: "case ?p of
           Hit s \<Rightarrow> \<exists>k. unat (0::u32) \<le> k \<and> k < unat ?cap \<and> s = probe_slot ?cap ?s0 k \<and> keys t s = 0 \<and>
                     (\<forall>j. unat (0::u32) \<le> j \<and> j < k \<longrightarrow>
                        keys t (probe_slot ?cap ?s0 j) \<noteq> 0 \<and> keys t (probe_slot ?cap ?s0 j) \<noteq> 0)
         | Claimed s \<Rightarrow> \<exists>k. unat (0::u32) \<le> k \<and> k < unat ?cap \<and> s = probe_slot ?cap ?s0 k \<and>
                     keys t s = 0 \<and> (0::u64) \<noteq> 0 \<and>
                     (\<forall>j. unat (0::u32) \<le> j \<and> j < k \<longrightarrow>
                        keys t (probe_slot ?cap ?s0 j) \<noteq> 0 \<and> keys t (probe_slot ?cap ?s0 j) \<noteq> 0)
         | Overflow \<Rightarrow> \<forall>j. unat (0::u32) \<le> j \<and> j < unat ?cap \<longrightarrow>
                        keys t (probe_slot ?cap ?s0 j) \<noteq> 0 \<and> keys t (probe_slot ?cap ?s0 j) \<noteq> 0"
    by (rule put_probe_char [OF u0 _ refl]) simp
  have same: "st' = st"
    using res by (cases ?p) simp_all
  have again: "put st env' n fs = Some (r, st)" for env'
    using res h c by (cases ?p) (simp_all add: put_def)
  have third: "(if \<exists>k < unat ?cap. keys t (probe_slot ?cap ?s0 k) = 0
     then \<exists>k < unat ?cap.
            keys t (probe_slot ?cap ?s0 k) = 0 \<and>
            (\<forall>j < k. keys t (probe_slot ?cap ?s0 j) \<noteq> 0) \<and>
            r = slot_id ?cap (probe_slot ?cap ?s0 k) \<and>
            (chain_ok (current_table st) \<and> length (current_table st) \<le> 16 \<longrightarrow>
               r \<noteq> 0 \<and> collect st m r = m r)
     else r = 0)"
  proof (cases ?p)
    case (Hit s)
    then obtain k where k: "k < unat ?cap" "s = probe_slot ?cap ?s0 k" "keys t s = 0"
      "\<forall>j < k. keys t (probe_slot ?cap ?s0 j) \<noteq> 0"
      using ch by auto
    have r: "r = slot_id ?cap s" and lt: "s < ?cap"
      using res Hit by simp_all
    have col: "r \<noteq> 0 \<and> collect st m r = m r"
      if "chain_ok (current_table st)" "length (current_table st) \<le> 16"
      using that head_slot_id_nonzero [of t rest s] collect_not_emitted [of t rest s m] lt k(3) c r
      by (simp add: collect_def)
    have "keys t (probe_slot ?cap ?s0 k) = 0 \<and>
            (\<forall>j < k. keys t (probe_slot ?cap ?s0 j) \<noteq> 0) \<and>
            r = slot_id ?cap (probe_slot ?cap ?s0 k) \<and>
            (chain_ok (current_table st) \<and> length (current_table st) \<le> 16 \<longrightarrow>
               r \<noteq> 0 \<and> collect st m r = m r)"
      using k r col by simp
    then show ?thesis
      using k(1) by auto
  next
    case (Claimed s)
    then show ?thesis
      using ch by simp
  next
    case Overflow
    then have "\<not> (\<exists>k < unat ?cap. keys t (probe_slot ?cap ?s0 k) = 0)"
      using ch by simp
    moreover have "r = 0"
      using res Overflow by simp
    ultimately show ?thesis
      by (simp only: if_False)
  qed
  show ?thesis
    using same again third by blast
qed


theorem put_hash_zero_witness:
  "calcHash 0 [] = Some 0 \<and>
   put one_trace_example env_ok 0 [] = Some (1, one_trace_example) \<and>
   current_table one_trace_example = hd (current_table one_trace_example) # [] \<and>
   collect one_trace_example Map.empty 1 = None"
proof -
  have c: "current_table one_trace_example = hd (current_table one_trace_example) # []"
    by (simp add: one_trace_example_def)
  have ok: "chain_ok (current_table one_trace_example)"
    "length (current_table one_trace_example) \<le> 16"
    by (simp_all add: one_trace_example_def INITIAL_CAPACITY_def)
  show ?thesis
    using put_hash_zero [OF calcHash_empty put_one_empty [of env_ok] c, of Map.empty] ok
      calcHash_empty put_one_empty [of env_ok] c
    by (auto split: if_splits)
qed

subsection \<open>Coverage of collect\<close>

lemma emits_allocate: "\<not> emits (allocate c) k"
  by (simp add: emits_def allocate_def)

lemma collect_ids: "dom (collect st Map.empty) = {k. \<exists>t \<in> set (current_table st). emits t k}"
  by (simp add: collect_def collect_dom)

lemma emits_claimed:
  assumes "slot < capacity t" "hash \<noteq> 0"
  shows "emits (t\<lparr>keys := (keys t)(slot := hash), size_tab := sz, values_tab := vs\<rparr>) k
       = (emits t k \<or> k = slot_id (capacity t) slot)"
proof -
  have "(slot_of t k = slot) = (k = slot_id (capacity t) slot)"
    using slot_id_eq_iff' [of k t slot] by auto
  then show ?thesis
    using assms by (auto simp: emits_def slot_of_def)
qed

lemma claim_ids:
  assumes ok: "chain_ok (t # rest)" and len: "length (t # rest) \<le> 16"
    and c: "current_table st = t # rest"
    and s: "slot < capacity t" and k: "keys t slot = 0" and h: "hash \<noteq> 0"
  shows "dom (collect (claim_slot st env t rest hash slot n fs) Map.empty)
           = dom (collect st Map.empty) \<union> {slot_id (capacity t) slot} \<and>
         slot_id (capacity t) slot \<notin> dom (collect st Map.empty)"
proof -
  let ?r = "slot_id (capacity t) slot"
  define t' where "t' = t\<lparr>keys := (keys t)(slot := hash), size_tab := size_tab t + 1,
          values_tab := (values_tab t)(slot := fst (migrate_or_store (allocator st) env rest hash n fs))\<rparr>"
  have e': "emits t' k = (emits t k \<or> k = ?r)" for k
    unfolding t'_def using s h by (rule emits_claimed)
  have ch: "current_table (claim_slot st env t rest hash slot n fs) = t' # rest
      \<or> current_table (claim_slot st env t rest hash slot n fs) = allocate (capacity t * 2) # t' # rest"
    unfolding t'_def claim_slot_eq by simp
  then have 1: "dom (collect (claim_slot st env t rest hash slot n fs) Map.empty)
           = dom (collect st Map.empty) \<union> {?r}"
    using c e' by (auto simp: collect_ids emits_allocate)
  have "fold collect_table (t # rest) Map.empty ?r = Map.empty ?r"
    using ok len s k by (rule collect_not_emitted)
  then have 2: "?r \<notin> dom (collect st Map.empty)"
    using c by (simp add: collect_def dom_def)
  show ?thesis
    using 1 2 by simp
qed

lemma puts_length:
  "puts st ops = Some (rs, st') \<Longrightarrow>
     length (current_table st) \<le> length (current_table st') \<and> length rs = length ops"
proof (induction ops arbitrary: st rs)
  case Nil
  then show ?case by simp
next
  case (Cons a ops)
  obtain env n fs where a: "a = (env, n, fs)"
    by (cases a) auto
  from Cons.prems obtain r st1 rs' where p: "put st env n fs = Some (r, st1)"
    and q: "puts st1 ops = Some (rs', st')" and rs: "rs = r # rs'"
    unfolding a by (auto split: option.splits)
  obtain t rest where c: "current_table st = t # rest"
    using p by (auto elim: put_some_cases)
  have "length (current_table st) \<le> length (current_table st1)"
    using put_chain_shape [OF p c] c by auto
  then show ?case
    using Cons.IH [OF q] rs by simp
qed


lemma puts_ids:
  assumes "puts st ops = Some (rs, st')" "chain_ok (current_table st)"
    "length (current_table st') \<le> 16" "distinct (hashes ops)" "Some 0 \<notin> set (hashes ops)"
    "0 \<notin> set rs" "\<forall>s. Some (keys (hd (current_table st)) s) \<notin> set (hashes ops)"
  shows "dom (collect st' Map.empty) = dom (collect st Map.empty) \<union> set rs \<and> distinct rs \<and>
         set rs \<inter> dom (collect st Map.empty) = {}"
  using assms
proof (induction ops arbitrary: st rs)
  case Nil
  then show ?case by simp
next
  case (Cons a ops)
  obtain env n fs where a: "a = (env, n, fs)"
    by (cases a) auto
  from Cons.prems(1) obtain r st1 rs' where p: "put st env n fs = Some (r, st1)"
    and q: "puts st1 ops = Some (rs', st')" and rs: "rs = r # rs'"
    unfolding a by (auto split: option.splits)
  obtain hash where h: "calcHash n fs = Some hash"
    using p by (auto elim: put_some_cases)
  obtain t rest where c: "current_table st = t # rest"
    using p by (auto elim: put_some_cases)
  have hs: "hashes (a # ops) = Some hash # hashes ops"
    by (simp add: hashes_def a h)
  have h0: "hash \<noteq> 0" and hn: "Some hash \<notin> set (hashes ops)" and d: "distinct (hashes ops)"
    and z: "Some 0 \<notin> set (hashes ops)" and hk: "\<forall>s. keys t s \<noteq> hash"
    and ks: "\<forall>s. Some (keys t s) \<notin> set (hashes ops)"
    using Cons.prems(4,5,7) c unfolding hs by auto
  have r0: "r \<noteq> 0" and rs0: "0 \<notin> set rs'"
    using Cons.prems(6) rs by auto
  let ?p = "put_probe (keys t) hash (capacity t) (first_slot hash (capacity t)) 0"
  note res = put_probe_result [OF p c h]
  obtain slot where cl: "?p = Claimed slot"
    using res r0 hk by (cases ?p) auto
  have sl: "slot < capacity t" "keys t slot = 0" "r = slot_id (capacity t) slot"
    and st1: "st1 = claim_slot st env t rest hash slot n fs"
    using res cl by simp_all
  have ok1: "chain_ok (current_table st1)"
    using chain_ok_put [OF p Cons.prems(2)] .
  have len: "length (t # rest) \<le> 16"
    using puts_length [OF q] put_chain_shape [OF p c] Cons.prems(3) by auto
  have okc: "chain_ok (t # rest)"
    using Cons.prems(2) c by simp
  have ids1: "dom (collect st1 Map.empty) = dom (collect st Map.empty) \<union> {r}"
    and rn: "r \<notin> dom (collect st Map.empty)"
    using claim_ids [OF okc len c sl(1,2) h0, of env n fs] st1 sl(3) by simp_all
  have hd1: "\<forall>s. Some (keys (hd (current_table st1)) s) \<notin> set (hashes ops)"
  proof -
    have "hd (current_table st1) = allocate (capacity t * 2)
        \<or> keys (hd (current_table st1)) = (keys t)(slot := hash)"
      unfolding st1 claim_slot_eq by simp
    then show ?thesis
      using z hn ks by (auto simp: allocate_def split: if_splits)
  qed
  have ih: "dom (collect st' Map.empty) = dom (collect st1 Map.empty) \<union> set rs' \<and> distinct rs' \<and>
         set rs' \<inter> dom (collect st1 Map.empty) = {}"
    using Cons.IH [OF q ok1 Cons.prems(3) d z rs0 hd1] .
  have "r \<notin> set rs'"
    using ih ids1 by auto
  then show ?case
    using ih ids1 rn rs by auto
qed

lemma collect_new_empty: "dom (collect (CallTraceStorage_new e) Map.empty) = {}"
  by (simp add: collect_ids CallTraceStorage_new_def emits_allocate)

lemma hashes_two: "hashes [(env_ok, 1, [1]), (env_ok, 1, [2])] = [Some hash_1, Some hash_2]"
  by (simp add: hashes_def calcHash_1 calcHash_2 hash_1_def)

lemma puts_two:
  "puts (CallTraceStorage_new env_ok) [(env_ok, 1, [1]), (env_ok, 1, [2])]
     = Some ([2351, 9235], two_trace_example)"
  by (simp add: put_new_1 put_one_2)

text \<open>
  Claim C7, as amended: after a sequence of \<open>N\<close> puts into a new storage, whose traces have
  pairwise distinct hashes, none of them 0, and which all return a non-zero identifier, the
  keys that \<open>collect\<close> emits into an empty map are exactly the returned identifiers, and there
  are \<open>N\<close> of them (the chain having at most 16 tables, the limit of the \<open>u32\<close> capacity).
\<close>

theorem collect_covers_puts:
  assumes p: "puts (CallTraceStorage_new env0) ops = Some (rs, st')"
    and d: "distinct (hashes ops)" and z: "Some 0 \<notin> set (hashes ops)"
    and r: "0 \<notin> set rs" and len: "length (current_table st') \<le> 16"
  shows "dom (collect st' Map.empty) = set rs \<and> distinct rs \<and> length rs = length ops \<and>
         card (dom (collect st' Map.empty)) = length ops"
proof (cases ops)
  case Nil
  then have "rs = []" "st' = CallTraceStorage_new env0"
    using p by simp_all
  then show ?thesis
    using Nil collect_new_empty [of env0] by simp
next
  case (Cons a ops')
  have al: "safeAlloc_ok env0"
  proof (rule ccontr)
    assume "\<not> safeAlloc_ok env0"
    then have "current_table (CallTraceStorage_new env0) = []"
      by (simp add: CallTraceStorage_new_def)
    then have "put (CallTraceStorage_new env0) env n fs = None" for env n fs
      by (simp add: put_def split: option.splits)
    then show False
      using p Cons by (cases a) simp
  qed
  then have ok: "chain_ok (current_table (CallTraceStorage_new env0))"
    by (simp add: CallTraceStorage_new_def allocate_def)
  have hd: "\<forall>s. Some (keys (hd (current_table (CallTraceStorage_new env0))) s) \<notin> set (hashes ops)"
    using z al by (simp add: CallTraceStorage_new_def allocate_def)
  have "dom (collect st' Map.empty) = set rs \<and> distinct rs"
    using puts_ids [OF p ok len d z r hd] by (simp add: collect_new_empty)
  moreover have "length rs = length ops"
    using puts_length [OF p] by simp
  ultimately show ?thesis
    using distinct_card [of rs] by simp
qed


theorem collect_covers_puts_witness:
  "puts (CallTraceStorage_new env_ok) [(env_ok, 1, [1]), (env_ok, 1, [2])]
     = Some ([2351, 9235], two_trace_example) \<and>
   distinct (hashes [(env_ok, 1, [1]), (env_ok, 1, [2])]) \<and>
   Some 0 \<notin> set (hashes [(env_ok, 1, [1]), (env_ok, 1, [2])]) \<and>
   (0::u32) \<notin> set [2351, 9235] \<and>
   length (current_table two_trace_example) \<le> 16 \<and>
   dom (collect two_trace_example Map.empty) = {2351, 9235} \<and>
   card (dom (collect two_trace_example Map.empty)) = 2"
proof -
  have d: "distinct (hashes [(env_ok, 1, [1]), (env_ok, 1, [2])])"
    by (simp add: hashes_two hash_1_def hash_2_def)
  have z: "Some 0 \<notin> set (hashes [(env_ok, 1, [1]), (env_ok, 1, [2])])"
    by (simp add: hashes_two hash_1_def hash_2_def)
  have r: "(0::u32) \<notin> set [2351, 9235]"
    by simp
  have len: "length (current_table two_trace_example) \<le> 16"
    by (simp add: two_trace_example_def)
  show ?thesis
    using collect_covers_puts [OF puts_two d z r len] puts_two d z r len by simp
qed

text \<open>
  Claim C7 as stated fails for a trace whose hash is 0: the put of the empty trace into a new
  storage returns the non-zero identifier 1 and stores nothing, so after this one put
  \<open>collect\<close> emits no entry.
\<close>

theorem collect_misses_hash_zero:
  "puts (CallTraceStorage_new env_ok) [(env_ok, 0, [])] = Some ([1], CallTraceStorage_new env_ok) \<and>
   distinct (hashes [(env_ok, 0, [])]) \<and> (0::u32) \<notin> set [1] \<and>
   dom (collect (CallTraceStorage_new env_ok) Map.empty) = {}"
proof -
  have "first_slot 0 65536 = 0"
    by (simp add: first_slot_def)
  moreover have "put_probe (\<lambda>_. 0) 0 65536 0 0 = Hit 0"
    by (subst put_probe.simps) simp
  ultimately have "put (CallTraceStorage_new env_ok) env_ok 0 [] = Some (1, CallTraceStorage_new env_ok)"
    by (simp add: put_def calcHash_empty CallTraceStorage_new_def env_ok_def allocate_def
        INITIAL_CAPACITY_def slot_id_def)
  then show ?thesis
    by (simp add: collect_new_empty hashes_def)
qed

subsection \<open>The storage at the growth threshold is reachable\<close>

lemma xorshift_involution: "(x XOR drop_bit R x) XOR drop_bit R (x XOR drop_bit R x) = (x :: u64)"
proof -
  have "drop_bit 47 (drop_bit 47 x) = (0 :: u64)"
    by (rule bit_word_eqI) (auto simp: bit_simps dest: bit_imp_le_length)
  then have "drop_bit 47 (x XOR drop_bit 47 x) = drop_bit 47 x"
    by (simp add: drop_bit_xor del: drop_bit_drop_bit)
  then show ?thesis
    by (simp add: xor.assoc R_def)
qed

lemma M_inv_M: "x * M_inv * M = (x :: u64)"
proof -
  have "M_inv * M = 1"
    by (simp add: M_inv_def M_def)
  then show ?thesis
    by (simp add: mult.assoc)
qed

lemma calcHash_one_frame:
  "calcHash 1 [d] = Some (let k = d * M; k = k XOR drop_bit R k; k = k * M;
                              h = (8 * M) XOR k; h = h * M; h = h XOR drop_bit R h; h = h * M
                          in h XOR drop_bit R h)"
  by (simp add: calcHash_def sizeof_ASGCT_CallFrame_def Let_def)

lemma calcHash_frame_for_hash: "calcHash 1 [frame_for_hash h] = Some h"
proof -
  define a where "a = h XOR drop_bit R h"
  define b where "b = a * M_inv"
  define c where "c = b XOR drop_bit R b"
  define e where "e = c * M_inv"
  define k1 where "k1 = e XOR (8 * M)"
  define k2 where "k2 = k1 * M_inv"
  define k3 where "k3 = k2 XOR drop_bit R k2"
  define d where "d = k3 * M_inv"
  have f: "frame_for_hash h = d"
    by (simp add: frame_for_hash_def Let_def a_def b_def c_def e_def k1_def k2_def k3_def d_def)
  have 1: "d * M = k3"
    by (simp add: d_def M_inv_M)
  have 2: "k3 XOR drop_bit R k3 = k2"
    unfolding k3_def by (rule xorshift_involution)
  have 3: "k2 * M = k1"
    by (simp add: k2_def M_inv_M)
  have 4: "(8 * M) XOR k1 = e"
    by (simp add: k1_def xor.commute xor.left_commute)
  have 5: "e * M = c"
    by (simp add: e_def M_inv_M)
  have 6: "c XOR drop_bit R c = b"
    unfolding c_def by (rule xorshift_involution)
  have 7: "b * M = a"
    by (simp add: b_def M_inv_M)
  have 8: "a XOR drop_bit R a = h"
    unfolding a_def by (rule xorshift_involution)
  show ?thesis
    unfolding f calcHash_one_frame Let_def by (simp only: 1 2 3 4 5 6 7 8)
qed

lemma unat_of_nat_small32: "n < 2 ^ 32 \<Longrightarrow> unat (of_nat n :: u32) = n"
  by (simp add: unat_of_nat)

lemma unat_of_nat_small64: "n < 2 ^ 64 \<Longrightarrow> unat (of_nat n :: u64) = n"
  by (simp add: unat_of_nat)

lemma fill_slot:
  assumes "n < 49152"
  shows "first_slot (of_nat n + 81920) 65536 = of_nat n + 16384"
proof -
  have a: "(of_nat n + 81920 :: u64) = of_nat (n + 81920)"
    by simp
  have c: "unat (of_nat (n + 81920) :: u32) = n + 81920"
    using assms by (intro unat_of_nat_small32) simp
  have c64: "unat (of_nat (n + 81920) :: u64) = n + 81920"
    using assms by (intro unat_of_nat_small64) simp
  have "unat (ucast (of_nat (n + 81920) :: u64) :: u32) = take_bit 32 (unat (of_nat (n + 81920) :: u64))"
    by (simp only: unsigned_ucast_eq) simp
  also have "\<dots> = n + 81920"
    using assms by (simp only: c64 take_bit_eq_mod) simp
  finally have b: "(ucast (of_nat (n + 81920) :: u64) :: u32) = of_nat (n + 81920)"
    using c by (simp only: word_unat_eq_iff)
  have "unat ((of_nat (n + 81920) :: u32) AND (2 ^ 16 - 1)) = (n + 81920) mod 2 ^ 16"
    using unat_and_dec_pow2 [of 16 "of_nat (n + 81920)"] c by simp
  also have "\<dots> = n + 16384"
  proof -
    have "n + 81920 = n + 16384 + 65536"
      by linarith
    then have "(n + 81920) mod 65536 = (n + 16384 + 65536) mod 65536"
      by (rule arg_cong)
    also have "\<dots> = (n + 16384) mod 65536"
      by (rule mod_add_self2)
    also have "\<dots> = n + 16384"
      using assms by simp
    finally show ?thesis by simp
  qed
  also have "\<dots> = unat (of_nat (n + 16384) :: u32)"
    using assms by (intro unat_of_nat_small32 [symmetric]) simp
  finally have "(of_nat (n + 81920) :: u32) AND (2 ^ 16 - 1) = of_nat (n + 16384)"
    by (simp only: word_unat_eq_iff)
  then show ?thesis
    unfolding first_slot_def ucast_and_low a b by simp
qed


lemma unat_of_nat_add32: "n + m < 2 ^ 32 \<Longrightarrow> unat (of_nat n + of_nat m :: u32) = n + m"
  using unat_of_nat_small32 [of "n + m"] by (simp only: of_nat_add)

lemma unat_of_nat_add64: "n + m < 2 ^ 64 \<Longrightarrow> unat (of_nat n + of_nat m :: u64) = n + m"
  using unat_of_nat_small64 [of "n + m"] by (simp only: of_nat_add)

lemma unat_ucast_up: "unat (ucast (s :: u32) :: u64) = unat s"
proof -
  have "unat (ucast s :: u64) = take_bit 64 (unat s)"
    by (simp only: unsigned_ucast_eq) simp
  moreover have "unat s < 2 ^ 64"
    using unsigned_less [of s, where 'a = nat] by simp
  ultimately show ?thesis
    by (simp only: take_bit_nat_eq_self)
qed

lemma fill_step:
  assumes n: "n < 49151"
  shows "put (filled n) env_ok 1 [frame_for_hash (of_nat n + 81920)]
           = Some (of_nat n + 16385, filled (Suc n))"
proof -
  define hash :: u64 where "hash = of_nat n + 81920"
  define slot :: u32 where "slot = of_nat n + 16384"
  have us: "unat slot = n + 16384"
    using unat_of_nat_add32 [of n 16384] n by (simp add: slot_def)
  have uh: "unat hash = n + 81920"
    using unat_of_nat_add64 [of n 81920] n by (simp add: hash_def)
  have hz: "hash \<noteq> 0"
    using uh by auto
  have uc: "unat (ucast slot + 65536 :: u64) = n + 81920"
  proof -
    have "unat (ucast slot :: u64) = unat slot"
      by (rule unat_ucast_up)
    then have "unat (ucast slot :: u64) + unat (65536 :: u64) < 2 ^ 64"
      using us n by simp
    then have "unat (ucast slot + 65536 :: u64) = unat (ucast slot :: u64) + unat (65536 :: u64)"
      by (simp add: unat_add_lem [THEN iffD1])
    then show ?thesis
      using \<open>unat (ucast slot :: u64) = unat slot\<close> us by simp
  qed
  have key: "ucast slot + 65536 = hash"
    using uc uh by (simp add: word_unat_eq_iff)
  have fs: "first_slot hash 65536 = slot"
    unfolding hash_def slot_def using n by (intro fill_slot) simp
  have k0: "keys (filled_table n) slot = 0"
    using us by (simp add: filled_table_def)
  have probe: "put_probe (keys (filled_table n)) hash 65536 slot 0 = Claimed slot"
    using k0 hz by (subst put_probe.simps) auto
  have keys_eq: "(keys (filled_table n))(slot := hash) = keys (filled_table (Suc n))"
  proof (rule ext)
    fix s :: u32
    show "((keys (filled_table n))(slot := hash)) s = keys (filled_table (Suc n)) s"
    proof (cases "s = slot")
      case True
      then show ?thesis using us key by (simp add: filled_table_def)
    next
      case False
      then have "unat s \<noteq> n + 16384"
        using us by (simp add: word_unat_eq_iff)
      then have "(unat s < 16384 + Suc n) = (unat s < 16384 + n)"
        by linarith
      then show ?thesis using False by (simp add: filled_table_def)
    qed
  qed
  have vals_eq: "(values_tab (filled_table n))(slot := Some n) = values_tab (filled_table (Suc n))"
  proof (rule ext)
    fix s :: u32
    show "((values_tab (filled_table n))(slot := Some n)) s = values_tab (filled_table (Suc n)) s"
    proof (cases "s = slot")
      case True
      then show ?thesis using us by (simp add: filled_table_def)
    next
      case False
      then have "unat s \<noteq> n + 16384"
        using us by (simp add: word_unat_eq_iff)
      then have "(unat s < 16384 + Suc n) = (unat s < 16384 + n)"
        by linarith
      then show ?thesis using False by (simp add: filled_table_def)
    qed
  qed
  have sz: "size_tab (filled_table n) + 1 \<noteq> 49152"
  proof -
    have "unat (of_nat n + of_nat 1 :: u32) = n + 1"
      using n by (intro unat_of_nat_add32) simp
    then have "unat (size_tab (filled_table n) + 1) = n + 1"
      by (simp add: filled_table_def)
    then have "unat (size_tab (filled_table n) + 1) \<noteq> unat (49152 :: u32)"
      using n by simp
    then show ?thesis by auto
  qed
  have thr: "(65536 :: u32) * 3 div 4 = 49152"
    by simp
  have mg: "migrate_or_store (allocator (filled n)) env_ok [] hash 1 [frame_for_hash hash]
      = (Some n, allocator (filled (Suc n)))"
    by (simp add: migrate_or_store_def storeCallTrace_def env_ok_def filled_def copy_frames_def hash_def)
  have cl: "claim_slot (filled n) env_ok (filled_table n) [] hash slot 1 [frame_for_hash hash]
      = filled (Suc n)"
  proof -
    have cap: "capacity (filled_table n) = 65536" "capacity (filled_table (Suc n)) = 65536"
      by (simp_all add: filled_table_def)
    have t: "filled_table n\<lparr>keys := keys (filled_table (Suc n)),
        size_tab := size_tab (filled_table n) + 1,
        values_tab := values_tab (filled_table (Suc n))\<rparr> = filled_table (Suc n)"
      by (simp add: filled_table_def)
    show ?thesis
      unfolding claim_slot_eq mg
      using sz by (simp add: cap thr keys_eq vals_eq t) (simp add: filled_def)
  qed
  have id: "slot_id 65536 slot = of_nat n + 16385"
    by (simp add: slot_id_def INITIAL_CAPACITY_def slot_def)
  have ch: "calcHash 1 [frame_for_hash hash] = Some hash"
    by (rule calcHash_frame_for_hash)
  have "put (filled n) env_ok 1 [frame_for_hash hash] = Some (of_nat n + 16385, filled (Suc n))"
    using probe cl id
    by (simp add: put_def ch fs filled_def [of n] filled_table_def [of n, THEN arg_cong [of _ _ capacity]])
  then show ?thesis
    by (simp add: hash_def)
qed


lemma fill_puts:
  "k \<le> n \<Longrightarrow> n \<le> 49151 \<Longrightarrow> puts (filled k) (fill_ops k n) = Some (fill_ids k n, filled n)"
proof (induction "n - k" arbitrary: k)
  case 0
  then show ?case by (simp add: fill_ops_def fill_ids_def)
next
  case (Suc d)
  then have k: "k < n" "k < 49151" and d: "d = n - Suc k"
    by simp_all
  have ops: "fill_ops k n = (env_ok, 1, [frame_for_hash (of_nat k + 81920)]) # fill_ops (Suc k) n"
    using k(1) by (simp add: fill_ops_def upt_conv_Cons)
  have ids: "fill_ids k n = (of_nat k + 16385) # fill_ids (Suc k) n"
    using k(1) by (simp add: fill_ids_def upt_conv_Cons)
  have "puts (filled (Suc k)) (fill_ops (Suc k) n) = Some (fill_ids (Suc k) n, filled n)"
    using Suc.hyps(1) [OF d] k(1) Suc.prems(2) by simp
  then show ?case
    unfolding ops ids using fill_step [OF k(2)] by simp
qed

lemma filled_0: "filled 0 = CallTraceStorage_new env_ok"
  by (auto simp: filled_def filled_table_def CallTraceStorage_new_def env_ok_def allocate_def
      INITIAL_CAPACITY_def fun_eq_iff)

lemma threshold_reachable:
  "puts (CallTraceStorage_new env_ok) (fill_ops 0 49151) = Some (fill_ids 0 49151, threshold_example)"
  using fill_puts [of 0 49151] by (simp add: filled_0 threshold_example_def)

text \<open>
  Claim C1 as stated fails. 49151 puts of distinct one-frame traces into a new storage lead to
  \<open>threshold_example\<close>. The put of the trace with the frame 1 is then the insertion that brings
  the size to the threshold: it returns the identifier 2351 of its slot in the first table and
  installs a new table. The next put of the same trace claims a slot of the new table and
  returns the identifier 67887.
\<close>

theorem put_id_changes_on_growth:
  "puts (CallTraceStorage_new env_ok) (fill_ops 0 49151) = Some (fill_ids 0 49151, threshold_example) \<and>
   put threshold_example env_ok 1 [1] = Some (2351, after_growth) \<and>
   map_option fst (put after_growth env_ok 1 [1]) = Some 67887 \<and>
   (2351::u32) \<noteq> 67887"
  by (simp add: threshold_reachable after_growth_put after_growth_put2)

lemma put_twice_chain:
  "current_table put_twice_example =
     [(allocate 131072)\<lparr>keys := (\<lambda>_. 0)(2350 := hash_1), size_tab := 1,
        values_tab := (\<lambda>_. None)(2350 := Some 49151)\<rparr>,
      threshold_table\<lparr>keys := (keys threshold_table)(2350 := hash_1), size_tab := 49152,
        values_tab := (values_tab threshold_table)(2350 := Some 49151)\<rparr>]"
proof -
  have m: "migrate_or_store (allocator after_growth) env_ok (tl (current_table after_growth)) hash_1 1 [1]
      = (Some 49151, allocator after_growth)"
    by (simp add: migrate_or_store_def after_growth_chain after_growth_find)
  show ?thesis
    unfolding put_twice_example_def claim_slot_eq m
    by (simp add: after_growth_chain allocate_def)
qed

lemma put_twice_reached:
  "put after_growth env_ok 1 [1] = Some (67887, put_twice_example)"
  by (simp add: after_growth_put2 put_twice_example_def)

lemma put_twice_collect:
  "collect put_twice_example Map.empty 67887 = Some (Some 49151) \<and>
   collect put_twice_example Map.empty 2351 = Some (Some 49151)"
proof -
  have h: "chain_ok (current_table put_twice_example)"
    "length (current_table put_twice_example) \<le> 16"
    "0 < length (current_table put_twice_example)"
    "1 < length (current_table put_twice_example)"
    "2350 < capacity (current_table put_twice_example ! 0)"
    "2350 < capacity (current_table put_twice_example ! 1)"
    "keys (current_table put_twice_example ! 0) 2350 \<noteq> 0"
    "keys (current_table put_twice_example ! 1) 2350 \<noteq> 0"
    by (simp_all add: put_twice_chain allocate_def threshold_table_def filled_table_def
        INITIAL_CAPACITY_def hash_1_def)
  have a: "slot_id (capacity (current_table put_twice_example ! 0)) 2350 = 67887"
    "slot_id (capacity (current_table put_twice_example ! 1)) 2350 = 2351"
    by (simp_all add: put_twice_chain allocate_def threshold_table_def filled_table_def
        slot_id_def INITIAL_CAPACITY_def)
  have v: "values_tab (current_table put_twice_example ! 0) 2350 = Some 49151"
    "values_tab (current_table put_twice_example ! 1) 2350 = Some 49151"
    by (simp_all add: put_twice_chain)
  show ?thesis
    using collect_entry [OF h(1,2,3,5,7), of Map.empty] collect_entry [OF h(1,2,4,6,8), of Map.empty]
    by (simp only: a v)
qed

text \<open>
  Claim C2 as stated fails. After the growth and a second put of the trace with the frame 1,
  both tables hold its hash in slot 2350; \<open>collect\<close> emits the entry of the newer table under
  the identifier 67887 and the entry of the older table under 2351, both with the trace
  49151. In \<open>shared_hash_example\<close> the two tables hold the hash 77 with different pointers:
  the entry of the newer table (identifier 65614, trace 0) stays in the map, the entry of the
  older table (null) is under the identifier 78.
\<close>

theorem collect_older_does_not_overwrite:
  "put after_growth env_ok 1 [1] = Some (67887, put_twice_example) \<and>
   keys (current_table put_twice_example ! 0) 2350 = keys (current_table put_twice_example ! 1) 2350 \<and>
   collect put_twice_example Map.empty 67887 = Some (Some 49151) \<and>
   collect put_twice_example Map.empty 2351 = Some (Some 49151) \<and>
   keys (current_table shared_hash_example ! 0) 77 = keys (current_table shared_hash_example ! 1) 77 \<and>
   collect shared_hash_example Map.empty 65614 = Some (Some 0) \<and>
   collect shared_hash_example Map.empty 78 = Some None"
proof -
  have "keys (current_table put_twice_example ! 0) 2350 = keys (current_table put_twice_example ! 1) 2350"
    by (simp add: put_twice_chain)
  then show ?thesis
    using put_twice_reached put_twice_collect shared_hash_collect by simp
qed

subsection \<open>The claims of clear and of the identifiers on the grown storage\<close>

theorem clear_resets_witness:
  "chain_ok (current_table after_growth) \<and>
   clear after_growth = Some \<lparr>current_table =
      [\<lparr>capacity = INITIAL_CAPACITY, size_tab = 0, keys = (\<lambda>_. 0), values_tab = (\<lambda>_. None)\<rparr>],
      allocator = []\<rparr>"
proof -
  have h: "chain_ok (current_table after_growth)"
    by (simp add: after_growth_chain allocate_def threshold_table_def filled_table_def
        INITIAL_CAPACITY_def)
  show ?thesis
    using h clear_resets [OF h] by simp
qed

subsection \<open>Identifiers over runs of puts\<close>

lemma put_chain_shape_gen:
  assumes p: "put st env n fs = Some (r, st')" and c: "current_table st = pre @ t # rest"
  shows "\<exists>pre' t'. current_table st' = pre' @ t' # rest \<and> table_ext t t' \<and> length pre \<le> length pre'"
proof (cases pre)
  case Nil
  then obtain new t' where "current_table st' = new @ t' # rest" "table_ext t t'"
    using put_chain_shape [OF p, of t rest] c by auto
  then show ?thesis
    using Nil by auto
next
  case (Cons x xs)
  then obtain new x' where "current_table st' = new @ x' # (xs @ t # rest)"
    using put_chain_shape [OF p, of x "xs @ t # rest"] c by auto
  then have "current_table st' = (new @ x' # xs) @ t # rest \<and> table_ext t t
      \<and> length pre \<le> length (new @ x' # xs)"
    using Cons by (simp add: table_ext_refl)
  then show ?thesis
    by blast
qed

lemma puts_to_shape_gen:
  assumes "puts_to st st'" "current_table st = pre @ t # rest"
  shows "\<exists>pre' t'. current_table st' = pre' @ t' # rest \<and> table_ext t t' \<and> length pre \<le> length pre'"
  using assms
proof (induction rule: puts_to.induct)
  case (puts_refl st)
  then have "current_table st = pre @ t # rest \<and> table_ext t t \<and> length pre \<le> length pre"
    by (simp add: table_ext_refl)
  then show ?case by blast
next
  case (puts_step st st1 env n fs r st2)
  then obtain pre1 t1 where a: "current_table st1 = pre1 @ t1 # rest" "table_ext t t1"
    "length pre \<le> length pre1"
    by blast
  obtain pre2 t2 where b: "current_table st2 = pre2 @ t2 # rest" "table_ext t1 t2"
    "length pre1 \<le> length pre2"
    using put_chain_shape_gen [OF puts_step.hyps(2) a(1)] by blast
  have "current_table st2 = pre2 @ t2 # rest \<and> table_ext t t2 \<and> length pre \<le> length pre2"
    using a b table_ext_trans by auto
  then show ?case by blast
qed

lemma chain_ok_puts_to:
  "puts_to st st' \<Longrightarrow> chain_ok (current_table st) \<Longrightarrow> chain_ok (current_table st')"
  by (induction rule: puts_to.induct) (auto intro: chain_ok_put)

lemma puts_to_length:
  "puts_to st st' \<Longrightarrow> length (current_table st) \<le> length (current_table st')"
proof (induction rule: puts_to.induct)
  case (puts_refl st)
  then show ?case by simp
next
  case (puts_step st st1 env n fs r st2)
  obtain t rest where c: "current_table st1 = t # rest"
    using puts_step.hyps(2) by (auto elim: put_some_cases)
  have "length (current_table st1) \<le> length (current_table st2)"
    using put_chain_shape [OF puts_step.hyps(2) c] c by auto
  then show ?case
    using puts_step.IH by simp
qed

text \<open>A put that does not return 0 returns the identifier of the slot that holds the hash afterwards.\<close>

lemma put_places_hash:
  assumes p: "put st env n fs = Some (r, st1)" and c: "current_table st = t # rest"
    and h: "calcHash n fs = Some hash" and r: "r \<noteq> 0"
  shows "\<exists>new t1 slot. current_table st1 = new @ t1 # rest \<and> table_ext t t1 \<and>
           slot < capacity t \<and> r = slot_id (capacity t) slot \<and> keys t1 slot = hash \<and>
           (put_probe (keys t) hash (capacity t) (first_slot hash (capacity t)) 0 = Hit slot \<or>
            put_probe (keys t) hash (capacity t) (first_slot hash (capacity t)) 0 = Claimed slot)"
proof -
  let ?p = "put_probe (keys t) hash (capacity t) (first_slot hash (capacity t)) 0"
  note res = put_probe_result [OF p c h]
  show ?thesis
  proof (cases ?p)
    case (Hit slot)
    then have "current_table st1 = [] @ t # rest \<and> table_ext t t \<and>
           slot < capacity t \<and> r = slot_id (capacity t) slot \<and> keys t slot = hash \<and>
           (?p = Hit slot \<or> ?p = Claimed slot)"
      using res c by (simp add: table_ext_refl)
    then show ?thesis by blast
  next
    case (Claimed slot)
    then have s: "slot < capacity t" "keys t slot = 0" "r = slot_id (capacity t) slot"
      "st1 = claim_slot st env t rest hash slot n fs"
      using res by simp_all
    define t' where "t' = t\<lparr>keys := (keys t)(slot := hash), size_tab := size_tab t + 1,
          values_tab := (values_tab t)(slot := fst (migrate_or_store (allocator st) env rest hash n fs))\<rparr>"
    have x: "table_ext t t'"
      using s(2) by (auto simp: table_ext_def t'_def)
    have k: "keys t' slot = hash"
      by (simp add: t'_def)
    have "current_table st1 = [] @ t' # rest
        \<or> current_table st1 = [allocate (capacity t * 2)] @ t' # rest"
      unfolding s(4) t'_def claim_slot_eq by simp
    then have "\<exists>new. current_table st1 = new @ t' # rest"
      by blast
    then show ?thesis
      using x k s(1,3) Claimed by blast
  next
    case Overflow
    then show ?thesis
      using res r by simp
  qed
qed

lemma len_bit2: "(x * 8 :: u32) AND 4 = 0"
proof -
  have nb: "\<not> bit (push_bit 3 x AND push_bit 2 (1::u32)) k" for k
    by (simp only: bit_and_iff bit_push_bit_iff bit_1_iff) auto
  have "push_bit 3 x AND push_bit 2 (1::u32) = 0"
    by (rule bit_eqI) (simp only: nb, simp)
  then show ?thesis
    by (simp add: push_bit_eq_mult)
qed

lemma calcHash_prefix:
  assumes "nat n \<le> length fs" "nat n \<le> length fs'" "take (nat n) fs = take (nat n) fs'"
  shows "calcHash n fs = calcHash n fs'"
proof (cases "n < 0")
  case True
  then show ?thesis by (simp add: calcHash_def Let_def)
next
  case False
  define w :: u32 where "w = word_of_int n * 8"
  have b: "w AND 4 = 0"
    unfolding w_def by (rule len_bit2)
  have le: "sint w \<le> n * 8"
  proof -
    have "w = word_of_int (n * 8)"
      by (simp add: w_def)
    then have "sint w = signed_take_bit 31 (n * 8)"
      by (simp only: sint_sbintrunc') simp
    moreover have "- (2 ^ 31) \<le> n * 8"
      using False by simp
    ultimately show ?thesis
      by (simp only: signed_take_bit_int_less_eq_self_iff)
  qed
  have cnt: "nat (sint w div 8) \<le> nat n"
    using le False by linarith
  have "take (nat (sint w div 8)) fs = take (nat (sint w div 8)) (take (nat n) fs)"
    using cnt by (simp add: min_def)
  also have "\<dots> = take (nat (sint w div 8)) (take (nat n) fs')"
    using assms(3) by simp
  also have "\<dots> = take (nat (sint w div 8)) fs'"
    using cnt by (simp add: min_def)
  finally have t: "take (nat (sint w div 8)) fs = take (nat (sint w div 8)) fs'" .
  have l: "(int (length fs) < n) = (int (length fs') < n)"
    using assms(1,2) False by linarith
  show ?thesis
    using b t l
    by (simp add: calcHash_def Let_def sizeof_ASGCT_CallFrame_def w_def [symmetric])
qed

text \<open>
  Claim C1, as amended: take a trace whose hash is not 0 and a put of it that has returned a
  non-zero identifier. Every byte-identical trace has the same hash. A later put of a trace
  with this hash, after any number of other puts, returns the same identifier and changes
  nothing, as long as the chain has the length it had before the first put (no table has
  been installed since). Once the chain is longer (and has at most 16 tables, built by the
  constructor and \<open>put\<close>), such a put returns another value: 0, or an identifier of the table
  that is then the current one.
\<close>

theorem put_stable_until_growth:
  assumes h: "calcHash n fs = Some hash" and nz: "hash \<noteq> 0"
    and p1: "put st env n fs = Some (r, st1)" and r: "r \<noteq> 0"
    and run: "puts_to st1 st2"
    and h': "calcHash n' fs' = Some hash"
    and p2: "put st2 env' n' fs' = Some (r', st3)"
  shows "(\<forall>fs''. nat n \<le> length fs'' \<and> take (nat n) fs'' = take (nat n) fs \<longrightarrow>
            calcHash n fs'' = Some hash) \<and>
         (length (current_table st2) = length (current_table st) \<longrightarrow> r' = r \<and> st3 = st2) \<and>
         (length (current_table st) < length (current_table st2) \<and>
          chain_ok (current_table st) \<and> length (current_table st2) \<le> 16 \<longrightarrow>
            r' \<noteq> r \<and>
            (r' = 0 \<or> (\<exists>slot. slot < capacity (hd (current_table st2)) \<and>
                         r' = slot_id (capacity (hd (current_table st2))) slot)))"
proof -
  obtain t rest where c: "current_table st = t # rest"
    using p1 by (auto elim: put_some_cases)
  let ?p = "put_probe (keys t) hash (capacity t) (first_slot hash (capacity t)) 0"
  obtain new1 t1 slot where s1: "current_table st1 = new1 @ t1 # rest" "table_ext t t1"
    and sl: "slot < capacity t" "r = slot_id (capacity t) slot" "keys t1 slot = hash"
    "?p = Hit slot \<or> ?p = Claimed slot"
    using put_places_hash [OF p1 c h r] by blast
  obtain pre2 t2 where s2: "current_table st2 = pre2 @ t2 # rest" "table_ext t1 t2"
    using puts_to_shape_gen [OF run s1(1)] by blast
  have ext: "table_ext t t2"
    using s1(2) s2(2) table_ext_trans by blast
  have cap2: "capacity t2 = capacity t"
    using ext by (simp add: table_ext_def)
  have k2: "keys t2 slot = hash"
    using sl(3) s2(2) nz by (auto simp: table_ext_def)
  obtain t0 rest0 where c2: "current_table st2 = t0 # rest0" and z0: "capacity t0 \<noteq> 0"
    and d2: "put_probe (keys t0) hash (capacity t0) (first_slot hash (capacity t0)) 0 = Overflow
               \<and> r' = 0 \<and> st3 = st2
       \<or> (\<exists>slot. put_probe (keys t0) hash (capacity t0) (first_slot hash (capacity t0)) 0 = Hit slot
             \<and> slot < capacity t0 \<and> r' = slot_id (capacity t0) slot \<and> st3 = st2)
       \<or> (\<exists>slot. put_probe (keys t0) hash (capacity t0) (first_slot hash (capacity t0)) 0
               = Claimed slot
             \<and> slot < capacity t0 \<and> r' = slot_id (capacity t0) slot
             \<and> st3 = claim_slot st2 env' t0 rest0 hash slot n' fs')"
    using p2 h' by (auto elim!: put_some_cases)
  have part1: "r' = r \<and> st3 = st2" if len: "length (current_table st2) = length (current_table st)"
  proof -
    have "pre2 = []"
      using len s2(1) c by simp
    then have t0: "t0 = t2"
      using s2(1) c2 by simp
    have "put_probe (keys t2) hash (capacity t) (first_slot hash (capacity t)) 0 = Hit slot"
      using put_probe_stable [where ks' = "keys t2", OF sl(4) nz k2] ext
      by (auto simp: table_ext_def)
    then show ?thesis
      using d2 t0 cap2 sl(2) by auto
  qed
  have part2: "r' \<noteq> r \<and>
            (r' = 0 \<or> (\<exists>slot. slot < capacity (hd (current_table st2)) \<and>
                         r' = slot_id (capacity (hd (current_table st2))) slot))"
    if lt: "length (current_table st) < length (current_table st2)"
      and ok: "chain_ok (current_table st)" and len: "length (current_table st2) \<le> 16"
  proof -
    have ok2: "chain_ok (current_table st2)"
      using chain_ok_puts_to [OF run chain_ok_put [OF p1 ok]] .
    have ne: "pre2 \<noteq> []"
      using lt s2(1) c by auto
    define i where "i = length pre2"
    have i: "i < length (current_table st2)" "0 < i" "current_table st2 ! i = t2"
      using ne s2(1) by (simp_all add: i_def)
    have z: "0 < length (current_table st2)" "current_table st2 ! 0 = t0"
      using c2 by simp_all
    have si: "slot < capacity (current_table st2 ! i)"
      using sl(1) cap2 i(3) by simp
    have diff: "slot_id (capacity (current_table st2 ! 0)) slot' \<noteq> r"
      if "slot' < capacity t0" for slot'
    proof -
      have "slot' < capacity (current_table st2 ! 0)"
        using that z(2) by simp
      then have "(slot_id (capacity (current_table st2 ! i)) slot
            = slot_id (capacity (current_table st2 ! 0)) slot') = (i = 0 \<and> slot = slot')"
        using chain_slot_id [OF ok2 len i(1) z(1) si] by simp
      then show ?thesis
        using i(2,3) cap2 sl(2) by auto
    qed
    have hd: "hd (current_table st2) = t0"
      using c2 by simp
    show ?thesis
      using d2 diff r z(2) unfolding hd by auto
  qed
  have part0: "calcHash n fs'' = Some hash"
    if "nat n \<le> length fs''" "take (nat n) fs'' = take (nat n) fs" for fs''
    using calcHash_prefix [OF that(1) _ that(2)] calcHash_Some_bounds [OF h] h by simp
  show ?thesis
    using part0 part1 part2 by blast
qed

theorem put_stable_until_growth_witness:
  "calcHash 1 [1] = Some hash_1 \<and> hash_1 \<noteq> 0 \<and>
   put (CallTraceStorage_new env_ok) env_ok 1 [1] = Some (2351, one_trace_example) \<and>
   puts_to one_trace_example two_trace_example \<and>
   length (current_table two_trace_example) = length (current_table (CallTraceStorage_new env_ok)) \<and>
   put two_trace_example env_ok 1 [1] = Some (2351, two_trace_example) \<and>
   nat 1 \<le> length [1 :: ASGCT_CallFrame, 7] \<and> take (nat 1) [1 :: ASGCT_CallFrame, 7] = take (nat 1) [1] \<and>
   calcHash 1 [1, 7] = Some hash_1 \<and>
   put threshold_example env_ok 1 [1] = Some (2351, after_growth) \<and>
   puts_to after_growth after_growth \<and>
   length (current_table threshold_example) < length (current_table after_growth) \<and>
   chain_ok (current_table threshold_example) \<and> length (current_table after_growth) \<le> 16 \<and>
   put after_growth env_ok 1 [1] = Some (67887, put_twice_example) \<and>
   (67887 :: u32) \<noteq> 2351"
proof -
  have h1: "calcHash 1 [1] = Some hash_1"
    by (simp add: calcHash_1 hash_1_def)
  have h2: "hash_1 \<noteq> 0"
    by (simp add: hash_1_def)
  have h4: "(2351::u32) \<noteq> 0"
    by simp
  have h5: "puts_to one_trace_example two_trace_example"
    using puts_step [OF puts_refl put_one_2] .
  have h6: "length (current_table two_trace_example)
      = length (current_table (CallTraceStorage_new env_ok))"
    by (simp add: two_trace_example_def CallTraceStorage_new_def env_ok_def)
  have g5: "puts_to after_growth after_growth"
    by (rule puts_refl)
  have g6: "length (current_table threshold_example) < length (current_table after_growth)"
    "chain_ok (current_table threshold_example)" "length (current_table after_growth) \<le> 16"
    by (simp_all add: after_growth_chain threshold_example_def filled_def filled_table_def
        INITIAL_CAPACITY_def)
  have a: "put two_trace_example env_ok 1 [1] = Some (2351, two_trace_example)"
    using put_stable_until_growth [OF h1 h2 put_new_1 h4 h5 h1 put_two_1] h6 put_two_1 by simp
  have pf: "nat 1 \<le> length [1 :: ASGCT_CallFrame, 7]"
    "take (nat 1) [1 :: ASGCT_CallFrame, 7] = take (nat 1) [1]"
    by simp_all
  have "\<forall>fs''. nat 1 \<le> length fs'' \<and> take (nat 1) fs'' = take (nat 1) [1] \<longrightarrow>
            calcHash 1 fs'' = Some hash_1"
    using put_stable_until_growth [OF h1 h2 put_new_1 h4 h5 h1 put_two_1] by (elim conjE)
  from this [rule_format, of "[1, 7]"] have a': "calcHash 1 [1, 7] = Some hash_1"
    using pf by simp
  have b: "(67887 :: u32) \<noteq> 2351"
    using put_stable_until_growth [OF h1 h2 after_growth_put h4 g5 h1 put_twice_reached] g6
    by simp
  show ?thesis
    using a a' pf b h1 h2 h5 h6 g5 g6 put_new_1 after_growth_put put_twice_reached by simp
qed

lemma distinct_hashes_distinct_ids:
  assumes h1: "calcHash n1 fs1 = Some h1" and h2: "calcHash n2 fs2 = Some h2"
    and ne: "h1 \<noteq> h2" and nz: "h1 \<noteq> 0"
    and p1: "put st env1 n1 fs1 = Some (r1, st1)" and run: "puts_to st1 st2"
    and p2: "put st2 env2 n2 fs2 = Some (r2, st3)"
    and r1: "r1 \<noteq> 0"
    and ok: "chain_ok (current_table st)" and len: "length (current_table st3) \<le> 16"
  shows "r1 \<noteq> r2"
proof -
  obtain t rest where c: "current_table st = t # rest"
    using p1 by (auto elim: put_some_cases)
  obtain new1 t1 slot where s1: "current_table st1 = new1 @ t1 # rest" "table_ext t t1"
    and sl: "slot < capacity t" "r1 = slot_id (capacity t) slot" "keys t1 slot = h1"
    using put_places_hash [OF p1 c h1 r1] by blast
  obtain pre2 t2 where s2: "current_table st2 = pre2 @ t2 # rest" "table_ext t1 t2"
    using puts_to_shape_gen [OF run s1(1)] by blast
  have cap2: "capacity t2 = capacity t"
    using s1(2) s2(2) by (simp add: table_ext_def)
  have k2: "keys t2 slot = h1"
    using sl(3) s2(2) nz by (auto simp: table_ext_def)
  have ok2: "chain_ok (current_table st2)"
    using chain_ok_puts_to [OF run chain_ok_put [OF p1 ok]] .
  obtain t0 rest0 where c2: "current_table st2 = t0 # rest0"
    using p2 by (auto elim: put_some_cases)
  have len2: "length (current_table st2) \<le> 16"
    using put_chain_shape [OF p2 c2] c2 len by auto
  note res = put_probe_result [OF p2 c2 h2]
  let ?p = "put_probe (keys t0) h2 (capacity t0) (first_slot h2 (capacity t0)) 0"
  define i where "i = length pre2"
  have i: "i < length (current_table st2)" "current_table st2 ! i = t2"
    using s2(1) by (simp_all add: i_def)
  have z: "0 < length (current_table st2)" "current_table st2 ! 0 = t0"
    using c2 by simp_all
  have si: "slot < capacity (current_table st2 ! i)"
    using sl(1) cap2 i(2) by simp
  have diff: "slot_id (capacity t0) slot' \<noteq> r1"
    if a: "slot' < capacity t0" and b: "keys t0 slot' = h2 \<or> keys t0 slot' = 0" for slot'
  proof
    assume e: "slot_id (capacity t0) slot' = r1"
    have "slot' < capacity (current_table st2 ! 0)"
      using a z(2) by simp
    then have "(slot_id (capacity (current_table st2 ! i)) slot
          = slot_id (capacity (current_table st2 ! 0)) slot') = (i = 0 \<and> slot = slot')"
      using chain_slot_id [OF ok2 len2 i(1) z(1) si] by simp
    then have "i = 0 \<and> slot = slot'"
      using e i(2) z(2) cap2 sl(2) by simp
    then have "keys t0 slot' = h1"
      using k2 i(2) z(2) by simp
    then show False
      using b ne nz by auto
  qed
  show ?thesis
  proof (cases ?p)
    case (Hit slot')
    then show ?thesis using res diff [of slot'] by auto
  next
    case (Claimed slot')
    then show ?thesis using res diff [of slot'] by auto
  next
    case Overflow
    then show ?thesis using res r1 by auto
  qed
qed

text \<open>
  Claim C3: in a chain built by the constructor and \<open>put\<close> (at most 16 tables, as the
  capacity is a \<open>u32\<close>), table \<open>i\<close> has capacity \<open>65536 * 2 ^ (length - 1 - i)\<close>; the identifier
  of slot \<open>s\<close> of a table is \<open>capacity - 65535 + s\<close> without wrap-around, it lies in
  \<open>[capacity - 65535, 2 * capacity - 65536]\<close> (that is \<open>[1, 65536]\<close>, \<open>[65537, 196608]\<close>,
  \<open>[196609, 458752]\<close>, ...), it is never 0, and two slots of the chain have the same
  identifier only if they are the same slot of the same table. \<open>collect\<close> emits an occupied
  slot under this identifier. \<open>put\<close> returns 0 only on a table overflow; otherwise it returns
  the identifier of the slot of the current table that holds the hash afterwards. So when a
  put of a non-zero hash has returned a non-zero identifier, no later put of another hash
  returns this identifier.
\<close>

theorem slot_ids_disjoint_nonzero:
  assumes ok: "chain_ok ts" and len: "length ts \<le> 16"
    and i: "i < length ts" and j: "j < length ts"
    and s: "s < capacity (ts ! i)" and s': "s' < capacity (ts ! j)"
  shows "unat (capacity (ts ! i)) = 65536 * 2 ^ (length ts - 1 - i) \<and>
         unat (slot_id (capacity (ts ! i)) s) = unat (capacity (ts ! i)) - 65535 + unat s \<and>
         unat (capacity (ts ! i)) - 65535 \<le> unat (slot_id (capacity (ts ! i)) s) \<and>
         unat (slot_id (capacity (ts ! i)) s) \<le> 2 * unat (capacity (ts ! i)) - 65536 \<and>
         slot_id (capacity (ts ! i)) s \<noteq> 0 \<and>
         ((slot_id (capacity (ts ! i)) s = slot_id (capacity (ts ! j)) s') = (i = j \<and> s = s')) \<and>
         (\<forall>a env n fs r st' hash.
            calcHash n fs = Some hash \<longrightarrow>
            put \<lparr>current_table = ts, allocator = a\<rparr> env n fs = Some (r, st') \<longrightarrow>
            (r \<noteq> 0) = (put_probe (keys (hd ts)) hash (capacity (hd ts))
                          (first_slot hash (capacity (hd ts))) 0 \<noteq> Overflow)) \<and>
         (\<forall>a m. keys (ts ! i) s \<noteq> 0 \<longrightarrow>
            collect \<lparr>current_table = ts, allocator = a\<rparr> m (slot_id (capacity (ts ! i)) s)
              = Some (values_tab (ts ! i) s)) \<and>
         (\<forall>a env n fs r st' hash.
            calcHash n fs = Some hash \<longrightarrow>
            put \<lparr>current_table = ts, allocator = a\<rparr> env n fs = Some (r, st') \<longrightarrow>
            r \<noteq> 0 \<longrightarrow>
            (\<exists>new t' slot. current_table st' = new @ t' # tl ts \<and>
               capacity t' = capacity (hd ts) \<and> slot < capacity (hd ts) \<and>
               r = slot_id (capacity (hd ts)) slot \<and> keys t' slot = hash)) \<and>
         (\<forall>a env1 n1 fs1 h1 r1 st1 st2 env2 n2 fs2 h2 r2 st3.
            calcHash n1 fs1 = Some h1 \<longrightarrow> calcHash n2 fs2 = Some h2 \<longrightarrow>
            h1 \<noteq> h2 \<longrightarrow> h1 \<noteq> 0 \<longrightarrow>
            put \<lparr>current_table = ts, allocator = a\<rparr> env1 n1 fs1 = Some (r1, st1) \<longrightarrow>
            puts_to st1 st2 \<longrightarrow>
            put st2 env2 n2 fs2 = Some (r2, st3) \<longrightarrow>
            r1 \<noteq> 0 \<longrightarrow> length (current_table st3) \<le> 16 \<longrightarrow>
            r1 \<noteq> r2)"
proof -
  have c8: "collect \<lparr>current_table = ts, allocator = a\<rparr> m (slot_id (capacity (ts ! i)) s)
              = Some (values_tab (ts ! i) s)"
    if "keys (ts ! i) s \<noteq> 0" for a m
    using collect_entry [of "\<lparr>current_table = ts, allocator = a\<rparr>" i s m] ok len i s that
    by simp
  have c9: "\<exists>new t' slot. current_table st' = new @ t' # tl ts \<and>
               capacity t' = capacity (hd ts) \<and> slot < capacity (hd ts) \<and>
               r = slot_id (capacity (hd ts)) slot \<and> keys t' slot = hash"
    if h: "calcHash n fs = Some hash"
      and p: "put \<lparr>current_table = ts, allocator = a\<rparr> env n fs = Some (r, st')"
      and r: "r \<noteq> 0" for a env n fs r st' hash
  proof -
    obtain t rest where c: "ts = t # rest"
      using ok by (cases ts) auto
    then have c': "current_table \<lparr>current_table = ts, allocator = a\<rparr> = t # rest"
      by simp
    obtain new t1 slot where "current_table st' = new @ t1 # rest" "table_ext t t1"
      "slot < capacity t" "r = slot_id (capacity t) slot" "keys t1 slot = hash"
      using put_places_hash [OF p c' h r] by blast
    then have "current_table st' = new @ t1 # tl ts \<and>
               capacity t1 = capacity (hd ts) \<and> slot < capacity (hd ts) \<and>
               r = slot_id (capacity (hd ts)) slot \<and> keys t1 slot = hash"
      using c by (simp add: table_ext_def)
    then show ?thesis by blast
  qed
  have c10: "r1 \<noteq> r2"
    if "calcHash n1 fs1 = Some h1" "calcHash n2 fs2 = Some h2" "h1 \<noteq> h2" "h1 \<noteq> 0"
      "put \<lparr>current_table = ts, allocator = a\<rparr> env1 n1 fs1 = Some (r1, st1)"
      "puts_to st1 st2" "put st2 env2 n2 fs2 = Some (r2, st3)" "r1 \<noteq> 0"
      "length (current_table st3) \<le> 16"
    for a env1 n1 fs1 h1 r1 st1 st2 env2 n2 fs2 h2 r2 st3
    using distinct_hashes_distinct_ids [OF that(1,2,3,4,5,6,7,8) _ that(9)] ok by simp
  have new: "(\<forall>a m. keys (ts ! i) s \<noteq> 0 \<longrightarrow>
            collect \<lparr>current_table = ts, allocator = a\<rparr> m (slot_id (capacity (ts ! i)) s)
              = Some (values_tab (ts ! i) s)) \<and>
         (\<forall>a env n fs r st' hash.
            calcHash n fs = Some hash \<longrightarrow>
            put \<lparr>current_table = ts, allocator = a\<rparr> env n fs = Some (r, st') \<longrightarrow>
            r \<noteq> 0 \<longrightarrow>
            (\<exists>new t' slot. current_table st' = new @ t' # tl ts \<and>
               capacity t' = capacity (hd ts) \<and> slot < capacity (hd ts) \<and>
               r = slot_id (capacity (hd ts)) slot \<and> keys t' slot = hash)) \<and>
         (\<forall>a env1 n1 fs1 h1 r1 st1 st2 env2 n2 fs2 h2 r2 st3.
            calcHash n1 fs1 = Some h1 \<longrightarrow> calcHash n2 fs2 = Some h2 \<longrightarrow>
            h1 \<noteq> h2 \<longrightarrow> h1 \<noteq> 0 \<longrightarrow>
            put \<lparr>current_table = ts, allocator = a\<rparr> env1 n1 fs1 = Some (r1, st1) \<longrightarrow>
            puts_to st1 st2 \<longrightarrow>
            put st2 env2 n2 fs2 = Some (r2, st3) \<longrightarrow>
            r1 \<noteq> 0 \<longrightarrow> length (current_table st3) \<le> 16 \<longrightarrow>
            r1 \<noteq> r2)"
    by (intro conjI allI impI; (rule c8 c9 c10; assumption))
  from slot_ids_facts [OF assms] new show ?thesis
    by (elim conjE, intro conjI) assumption+
qed

theorem slot_ids_disjoint_nonzero_witness:
  "chain_ok (current_table put_twice_example) \<and> length (current_table put_twice_example) \<le> 16 \<and>
   0 < length (current_table put_twice_example) \<and> 1 < length (current_table put_twice_example) \<and>
   2350 < capacity (current_table put_twice_example ! 0) \<and>
   2350 < capacity (current_table put_twice_example ! 1) \<and>
   unat (slot_id (capacity (current_table put_twice_example ! 0)) 2350) = 67887 \<and>
   unat (slot_id (capacity (current_table put_twice_example ! 1)) 2350) = 2351 \<and>
   slot_id (capacity (current_table put_twice_example ! 1)) 2350 \<noteq> 0 \<and>
   slot_id (capacity (current_table put_twice_example ! 0)) 2350
     \<noteq> slot_id (capacity (current_table put_twice_example ! 1)) 2350 \<and>
   keys (current_table put_twice_example ! 0) 2350 \<noteq> 0 \<and>
   collect \<lparr>current_table = current_table put_twice_example, allocator = []\<rparr> Map.empty 67887
     = Some (Some 49151) \<and>
   chain_ok (current_table (CallTraceStorage_new env_ok)) \<and>
   calcHash 1 [1] = Some hash_1 \<and> calcHash 1 [2] = Some hash_2 \<and> hash_1 \<noteq> hash_2 \<and> hash_1 \<noteq> 0 \<and>
   put \<lparr>current_table = current_table (CallTraceStorage_new env_ok), allocator = []\<rparr> env_ok 1 [1]
     = Some (2351, one_trace_example) \<and>
   puts_to one_trace_example one_trace_example \<and>
   put one_trace_example env_ok 1 [2] = Some (9235, two_trace_example) \<and>
   length (current_table two_trace_example) \<le> 16 \<and>
   (2351 :: u32) \<noteq> 9235"
proof -
  have h: "chain_ok (current_table put_twice_example)"
    "length (current_table put_twice_example) \<le> 16"
    "0 < length (current_table put_twice_example)" "1 < length (current_table put_twice_example)"
    "2350 < capacity (current_table put_twice_example ! 0)"
    "2350 < capacity (current_table put_twice_example ! 1)"
    by (simp_all add: put_twice_chain allocate_def threshold_table_def filled_table_def
        INITIAL_CAPACITY_def)
  have c: "capacity (current_table put_twice_example ! 0) = 131072"
    "capacity (current_table put_twice_example ! 1) = 65536"
    "capacity (current_table put_twice_example ! Suc 0) = 65536"
    by (simp_all add: put_twice_chain allocate_def threshold_table_def filled_table_def)
  have k: "keys (current_table put_twice_example ! 0) 2350 \<noteq> 0"
    "values_tab (current_table put_twice_example ! 0) 2350 = Some 49151"
    by (simp_all add: put_twice_chain hash_1_def)
  have 1: "unat (slot_id (capacity (current_table put_twice_example ! 0)) 2350) = 67887 \<and>
   unat (slot_id (capacity (current_table put_twice_example ! 1)) 2350) = 2351 \<and>
   slot_id (capacity (current_table put_twice_example ! 1)) 2350 \<noteq> 0 \<and>
   slot_id (capacity (current_table put_twice_example ! 0)) 2350
     \<noteq> slot_id (capacity (current_table put_twice_example ! 1)) 2350"
    using slot_ids_disjoint_nonzero [OF h(1,2,3,4,5,6)]
      slot_ids_disjoint_nonzero [OF h(1,2,4,3,6,5)]
    by (simp add: c)
  have "\<forall>a m. keys (current_table put_twice_example ! 0) 2350 \<noteq> 0 \<longrightarrow>
            collect \<lparr>current_table = current_table put_twice_example, allocator = a\<rparr> m
              (slot_id (capacity (current_table put_twice_example ! 0)) 2350)
              = Some (values_tab (current_table put_twice_example ! 0) 2350)"
    using slot_ids_disjoint_nonzero [OF h(1,2,3,3,5,5)] by (elim conjE)
  then have 2: "collect \<lparr>current_table = current_table put_twice_example, allocator = []\<rparr> Map.empty 67887
     = Some (Some 49151)"
    using k by (simp add: c slot_id_def INITIAL_CAPACITY_def)
  have n: "chain_ok (current_table (CallTraceStorage_new env_ok))"
    "length (current_table (CallTraceStorage_new env_ok)) \<le> 16"
    "0 < length (current_table (CallTraceStorage_new env_ok))"
    "0 < capacity (current_table (CallTraceStorage_new env_ok) ! 0)"
    by (simp_all add: CallTraceStorage_new_def env_ok_def allocate_def INITIAL_CAPACITY_def)
  have e: "\<lparr>current_table = current_table (CallTraceStorage_new env_ok), allocator = []\<rparr>
      = CallTraceStorage_new env_ok"
    by (simp add: CallTraceStorage_new_def)
  have hs: "calcHash 1 [1] = Some hash_1" "calcHash 1 [2] = Some hash_2" "hash_1 \<noteq> hash_2"
    "hash_1 \<noteq> 0"
    by (simp_all add: calcHash_1 calcHash_2 hash_1_def hash_2_def)
  have p1: "put \<lparr>current_table = current_table (CallTraceStorage_new env_ok), allocator = []\<rparr> env_ok 1 [1]
     = Some (2351, one_trace_example)"
    unfolding e by (rule put_new_1)
  have l: "length (current_table two_trace_example) \<le> 16"
    by (simp add: two_trace_example_def)
  have "\<forall>a env1 n1 fs1 h1 r1 st1 st2 env2 n2 fs2 h2 r2 st3.
            calcHash n1 fs1 = Some h1 \<longrightarrow> calcHash n2 fs2 = Some h2 \<longrightarrow>
            h1 \<noteq> h2 \<longrightarrow> h1 \<noteq> 0 \<longrightarrow>
            put \<lparr>current_table = current_table (CallTraceStorage_new env_ok), allocator = a\<rparr> env1 n1 fs1
              = Some (r1, st1) \<longrightarrow>
            puts_to st1 st2 \<longrightarrow>
            put st2 env2 n2 fs2 = Some (r2, st3) \<longrightarrow>
            r1 \<noteq> 0 \<longrightarrow> length (current_table st3) \<le> 16 \<longrightarrow>
            r1 \<noteq> r2"
    using slot_ids_disjoint_nonzero [OF n(1,2,3,3,4,4)] by (elim conjE)
  from this [rule_format, OF hs(1) hs(2) hs(3) hs(4) p1 puts_refl put_one_2 _ l]
  have 3: "(2351 :: u32) \<noteq> 9235"
    by simp
  show ?thesis
    using h 1 k(1) 2 n(1) hs p1 puts_refl [of one_trace_example] put_one_2 l by simp
qed

subsection \<open>A hash of 0 reserves nothing\<close>

lemma pack_slot:
  assumes "n < 65536"
  shows "first_slot (of_nat n + 65536) 65536 = of_nat n"
proof -
  have c: "unat (of_nat n + of_nat 65536 :: u32) = n + 65536"
    using assms by (intro unat_of_nat_add32) simp
  have c64: "unat (of_nat n + of_nat 65536 :: u64) = n + 65536"
    using assms by (intro unat_of_nat_add64) simp
  have "unat (ucast (of_nat n + of_nat 65536 :: u64) :: u32)
      = take_bit 32 (unat (of_nat n + of_nat 65536 :: u64))"
    by (simp only: unsigned_ucast_eq) simp
  also have "\<dots> = n + 65536"
    using assms by (simp only: c64 take_bit_eq_mod) simp
  finally have b: "(ucast (of_nat n + of_nat 65536 :: u64) :: u32) = of_nat n + of_nat 65536"
    using c by (simp only: word_unat_eq_iff)
  have "unat ((of_nat n + of_nat 65536 :: u32) AND (2 ^ 16 - 1)) = (n + 65536) mod 2 ^ 16"
    using unat_and_dec_pow2 [of 16 "of_nat n + of_nat 65536"] c by simp
  also have "\<dots> = n"
    using assms by simp
  also have "\<dots> = unat (of_nat n :: u32)"
    using assms by (intro unat_of_nat_small32 [symmetric]) simp
  finally have "(of_nat n + of_nat 65536 :: u32) AND (2 ^ 16 - 1) = of_nat n"
    by (simp only: word_unat_eq_iff)
  then have "ucast (of_nat n + of_nat 65536 :: u64) AND (65535 :: u32) = of_nat n"
    unfolding b by simp
  then show ?thesis
    unfolding first_slot_def ucast_and_low by simp
qed

lemma pack_step:
  assumes n: "n < 65536" and ar: "arena_ok env" and gr: "safeAlloc_ok env \<longrightarrow> n \<noteq> 49151"
  shows "put (packed n) env 1 [frame_for_hash (of_nat n + 65536)]
           = Some (of_nat n + 1, packed (Suc n))"
proof -
  define hash :: u64 where "hash = of_nat n + 65536"
  define slot :: u32 where "slot = of_nat n"
  have us: "unat slot = n"
    using unat_of_nat_small32 [of n] n by (simp add: slot_def)
  have uh: "unat hash = n + 65536"
    using unat_of_nat_add64 [of n 65536] n by (simp add: hash_def)
  have hz: "hash \<noteq> 0"
    using uh by auto
  have uc: "unat (ucast slot + 65536 :: u64) = n + 65536"
  proof -
    have e: "unat (ucast slot :: u64) = unat slot"
      by (rule unat_ucast_up)
    then have "unat (ucast slot :: u64) + unat (65536 :: u64) < 2 ^ 64"
      using us n by simp
    then have "unat (ucast slot + 65536 :: u64) = unat (ucast slot :: u64) + unat (65536 :: u64)"
      by (simp add: unat_add_lem [THEN iffD1])
    then show ?thesis
      using e us by simp
  qed
  have key: "ucast slot + 65536 = hash"
    using uc uh by (simp add: word_unat_eq_iff)
  have fs: "first_slot hash 65536 = slot"
    unfolding hash_def slot_def using n by (rule pack_slot)
  have k0: "keys (packed_table n) slot = 0"
    using us by (simp add: packed_table_def)
  have probe: "put_probe (keys (packed_table n)) hash 65536 slot 0 = Claimed slot"
    using k0 hz by (subst put_probe.simps) auto
  have keys_eq: "(keys (packed_table n))(slot := hash) = keys (packed_table (Suc n))"
  proof (rule ext)
    fix s :: u32
    show "((keys (packed_table n))(slot := hash)) s = keys (packed_table (Suc n)) s"
    proof (cases "s = slot")
      case True
      then show ?thesis using us key by (simp add: packed_table_def)
    next
      case False
      then have "unat s \<noteq> n"
        using us by (simp add: word_unat_eq_iff)
      then have "(unat s < Suc n) = (unat s < n)"
        by linarith
      then show ?thesis using False by (simp add: packed_table_def)
    qed
  qed
  have vals_eq: "(values_tab (packed_table n))(slot := Some n) = values_tab (packed_table (Suc n))"
  proof (rule ext)
    fix s :: u32
    show "((values_tab (packed_table n))(slot := Some n)) s = values_tab (packed_table (Suc n)) s"
    proof (cases "s = slot")
      case True
      then show ?thesis using us by (simp add: packed_table_def)
    next
      case False
      then have "unat s \<noteq> n"
        using us by (simp add: word_unat_eq_iff)
      then have "(unat s < Suc n) = (unat s < n)"
        by linarith
      then show ?thesis using False by (simp add: packed_table_def)
    qed
  qed
  have sz: "\<not> (size_tab (packed_table n) + 1 = 49152 \<and> safeAlloc_ok env)"
  proof
    assume a: "size_tab (packed_table n) + 1 = 49152 \<and> safeAlloc_ok env"
    have "unat (of_nat n + of_nat 1 :: u32) = n + 1"
      using n by (intro unat_of_nat_add32) simp
    then have "unat (size_tab (packed_table n) + 1) = n + 1"
      by (simp add: packed_table_def)
    then have "n + 1 = 49152"
      using a by simp
    then show False
      using a gr by simp
  qed
  have thr: "(65536 :: u32) * 3 div 4 = 49152"
    by simp
  have mg: "migrate_or_store (allocator (packed n)) env [] hash 1 [frame_for_hash hash]
      = (Some n, allocator (packed (Suc n)))"
    using ar
    by (simp add: migrate_or_store_def storeCallTrace_def packed_def copy_frames_def hash_def)
  have cl: "claim_slot (packed n) env (packed_table n) [] hash slot 1 [frame_for_hash hash]
      = packed (Suc n)"
  proof -
    have cap: "capacity (packed_table n) = 65536" "capacity (packed_table (Suc n)) = 65536"
      by (simp_all add: packed_table_def)
    have t: "packed_table n\<lparr>keys := keys (packed_table (Suc n)),
        size_tab := size_tab (packed_table n) + 1,
        values_tab := values_tab (packed_table (Suc n))\<rparr> = packed_table (Suc n)"
      by (simp add: packed_table_def)
    have nt: "(if size_tab (packed_table n) + 1 = capacity (packed_table n) * 3 div 4 \<and> safeAlloc_ok env
         then [allocate (capacity (packed_table n) * 2)] else []) = []"
      using sz by (simp add: cap thr)
    show ?thesis
      unfolding claim_slot_eq mg nt
      by (simp add: keys_eq vals_eq t) (simp add: packed_def)
  qed
  have id: "slot_id 65536 slot = of_nat n + 1"
    by (simp add: slot_id_def INITIAL_CAPACITY_def slot_def)
  have ch: "calcHash 1 [frame_for_hash hash] = Some hash"
    by (rule calcHash_frame_for_hash)
  have "put (packed n) env 1 [frame_for_hash hash] = Some (of_nat n + 1, packed (Suc n))"
    using probe cl id
    by (simp add: put_def ch fs packed_def [of n] packed_table_def [of n, THEN arg_cong [of _ _ capacity]])
  then show ?thesis
    by (simp add: hash_def)
qed

lemma pack_puts:
  "k \<le> n \<Longrightarrow> n \<le> 65536 \<Longrightarrow> puts (packed k) (pack_ops k n) = Some (pack_ids k n, packed n)"
proof (induction "n - k" arbitrary: k)
  case 0
  then show ?case by (simp add: pack_ops_def pack_ids_def)
next
  case (Suc d)
  then have k: "k < n" "k < 65536" and d: "d = n - Suc k"
    by simp_all
  have ops: "pack_ops k n = (env_no_table, 1, [frame_for_hash (of_nat k + 65536)]) # pack_ops (Suc k) n"
    using k(1) by (simp add: pack_ops_def upt_conv_Cons)
  have ids: "pack_ids k n = (of_nat k + 1) # pack_ids (Suc k) n"
    using k(1) by (simp add: pack_ids_def upt_conv_Cons)
  have "puts (packed (Suc k)) (pack_ops (Suc k) n) = Some (pack_ids (Suc k) n, packed n)"
    using Suc.hyps(1) [OF d] k(1) Suc.prems(2) by simp
  moreover have "put (packed k) env_no_table 1 [frame_for_hash (of_nat k + 65536)]
      = Some (of_nat k + 1, packed (Suc k))"
    using k(2) by (intro pack_step) (simp_all add: env_no_table_def)
  ultimately show ?case
    unfolding ops ids by simp
qed

lemma packed_0: "packed 0 = CallTraceStorage_new env_ok"
  by (auto simp: packed_def packed_table_def CallTraceStorage_new_def env_ok_def allocate_def
      INITIAL_CAPACITY_def fun_eq_iff)

lemma full_reachable:
  "puts (CallTraceStorage_new env_ok) (pack_ops 0 65536) = Some (pack_ids 0 65536, packed 65536)"
  using pack_puts [of 0 65536] by (simp add: packed_0)


lemma packed_chain: "chain_ok (current_table (packed n)) \<and> length (current_table (packed n)) \<le> 16"
  by (simp add: packed_def packed_table_def INITIAL_CAPACITY_def)

lemma put_packed_empty_0: "put (packed 0) e 0 [] = Some (1, packed 0)"
proof -
  have "first_slot 0 65536 = 0"
    by (simp add: first_slot_def)
  moreover have "put_probe (\<lambda>_. 0) 0 65536 0 0 = Hit 0"
    by (subst put_probe.simps) simp
  ultimately show ?thesis
    by (simp add: put_def calcHash_empty packed_def packed_table_def slot_id_def INITIAL_CAPACITY_def)
qed

lemma put_packed_empty_1: "put (packed 1) e 0 [] = Some (2, packed 1)"
proof -
  have f: "first_slot 0 65536 = 0"
    by (simp add: first_slot_def)
  have k0: "keys (packed_table 1) 0 = 65536" and k1: "keys (packed_table 1) 1 = 0"
    by (simp_all add: packed_table_def)
  have "put_probe (keys (packed_table 1)) 0 65536 0 0 = Hit 1"
  proof -
    have le: "\<not> (65536 :: u32) \<le> 1"
      by (simp add: word_le_nat_alt)
    have sl: "((0 :: u32) + (0 + 1)) AND (65536 - 1) = 1"
      by simp
    have "put_probe (keys (packed_table 1)) 0 65536 1 1 = Hit 1"
      using k1 by (subst put_probe.simps) simp
    then show ?thesis
      using k0 le by (subst put_probe.simps) simp
  qed
  moreover have "capacity (packed_table 1) = 65536"
    by (simp add: packed_table_def)
  ultimately show ?thesis
    using f by (simp add: put_def calcHash_empty packed_def slot_id_def INITIAL_CAPACITY_def)
qed

lemma collect_packed_1: "collect (packed 1) Map.empty 1 = Some (Some 0)"
proof -
  have t: "current_table (packed 1) ! 0 = packed_table 1"
    by (simp add: packed_def)
  have "(0 :: u32) < capacity (packed_table 1)" and "keys (packed_table 1) 0 \<noteq> 0"
    by (simp_all add: packed_table_def)
  then have "collect (packed 1) Map.empty (slot_id (capacity (packed_table 1)) 0)
      = Some (values_tab (packed_table 1) 0)"
    using collect_entry [of "packed 1" 0 0 Map.empty] packed_chain [of 1] t
    by (simp add: packed_def)
  then show ?thesis
    by (simp add: packed_table_def slot_id_def INITIAL_CAPACITY_def)
qed

lemma put_packed_full: "put (packed 65536) e 0 [] = Some (0, packed 65536)"
proof -
  have nz: "keys (packed_table 65536) s \<noteq> 0" if "s < 2 ^ 16" for s :: u32
  proof -
    have u: "unat s < 65536"
      using that by (simp add: word_less_nat_alt)
    have e: "unat (ucast s :: u64) = unat s"
      by (rule unat_ucast_up)
    then have "unat (ucast s :: u64) + unat (65536 :: u64) < 2 ^ 64"
      using u by simp
    then have "unat (ucast s + 65536 :: u64) = unat (ucast s :: u64) + unat (65536 :: u64)"
      by (simp add: unat_add_lem [THEN iffD1])
    then have "unat (ucast s + 65536 :: u64) \<noteq> 0"
      by simp
    then have "ucast s + 65536 \<noteq> (0 :: u64)"
      by auto
    then show ?thesis
      using u by (simp add: packed_table_def)
  qed
  have "put_probe (keys (packed_table 65536)) 0 (2 ^ 16) (first_slot 0 (2 ^ 16)) 0 = Overflow"
    using nz put_probe_overflow_iff [of 16 "keys (packed_table 65536)" 0] by simp
  then have "put_probe (keys (packed_table 65536)) 0 65536 (first_slot 0 65536) 0 = Overflow"
    by simp
  moreover have "capacity (packed_table 65536) = 65536"
    by (simp add: packed_table_def)
  ultimately show ?thesis
    by (simp add: put_def calcHash_empty packed_def)
qed

text \<open>
  Claim C10 as stated fails. The put of the empty trace (hash 0) into a new storage returns the
  identifier 1 of slot 0 and stores nothing. The put of a one-frame trace with the hash 65536
  then claims this very slot and returns the same identifier 1, so \<open>collect\<close> emits an entry
  for the identifier that the empty trace had received, and the next put of the empty trace
  returns another identifier, 2. Moreover, 65536 puts into a storage that cannot grow fill the
  table, and the put of the empty trace then returns 0, not the identifier of a slot.
\<close>

theorem put_hash_zero_id_reused:
  "put (CallTraceStorage_new env_ok) env_ok 0 [] = Some (1, CallTraceStorage_new env_ok) \<and>
   put (CallTraceStorage_new env_ok) env_ok 1 [frame_for_hash 65536] = Some (1, packed 1) \<and>
   collect (packed 1) Map.empty 1 = Some (Some 0) \<and>
   put (packed 1) env_ok 0 [] = Some (2, packed 1) \<and>
   puts (CallTraceStorage_new env_ok) (pack_ops 0 65536) = Some (pack_ids 0 65536, packed 65536) \<and>
   put (packed 65536) env_ok 0 [] = Some (0, packed 65536)"
proof -
  have "put (packed 0) env_ok 1 [frame_for_hash (of_nat 0 + 65536)] = Some (of_nat 0 + 1, packed (Suc 0))"
    by (rule pack_step) (simp_all add: env_ok_def)
  then have "put (packed 0) env_ok 1 [frame_for_hash 65536] = Some (1, packed 1)"
    by simp
  then show ?thesis
    using put_packed_empty_0 [of env_ok] full_reachable
    using collect_packed_1 put_packed_empty_1 [of env_ok] put_packed_full [of env_ok]
    by (simp add: packed_0)
qed

end
